theory Spec2Isabelle
  imports Main "HOL-Library.Word" "HOL-Library.Char_ord"
begin

section \<open>Data model of celeste_cli.c\<close>

datatype AppState =
    AppStateSplash
  | AppStateMainMenu
  | AppStateTarotMenu
  | AppStateContentMenu
  | AppStateNSFWMenu
  | AppStateConfirm
  | AppStateExecuting
  | AppStateCustomInput

datatype MenuCategory =
    MenuCategoryMain
  | MenuCategoryTarot
  | MenuCategoryContent
  | MenuCategoryNSFW

text \<open>
  \<^verbatim>\<open>CelesteCommand\<close>: the two \<^verbatim>\<open>const char*\<close> fields may be \<^verbatim>\<open>NULL\<close>
  (they are in the end marker), so they are optional strings.
\<close>

record CelesteCommand =
  name :: "string option"
  command :: "string option"
  category :: MenuCategory

text \<open>The compiled-in table \<^verbatim>\<open>commands[]\<close>, end marker included.\<close>

definition commands :: "CelesteCommand list" where
  \<open>commands = [
    \<lparr>name = Some ''3-Card Tarot'',
     command = Some ''celestecli --tarot\<newline>'',
     category = MenuCategoryTarot\<rparr>,
    \<lparr>name = Some ''Celtic Cross'',
     command = Some ''celestecli --tarot --spread celtic\<newline>'',
     category = MenuCategoryTarot\<rparr>,
    \<lparr>name = Some ''Divine Reading'',
     command = Some ''celestecli --divine\<newline>'',
     category = MenuCategoryTarot\<rparr>,
    \<lparr>name = Some ''Divine NSFW'',
     command = Some ''celestecli --divine-nsfw\<newline>'',
     category = MenuCategoryTarot\<rparr>,
    \<lparr>name = Some ''Tarot Parsed'',
     command = Some ''celestecli --tarot --parsed\<newline>'',
     category = MenuCategoryTarot\<rparr>,
    \<lparr>name = Some ''Twitter Short'',
     command = Some ''celestecli --format short --platform twitter --topic "NIKKE" --tone "lewd"\<newline>'',
     category = MenuCategoryContent\<rparr>,
    \<lparr>name = Some ''Twitter Teasing'',
     command = Some ''celestecli --format short --platform twitter --topic "NIKKE" --tone "teasing"\<newline>'',
     category = MenuCategoryContent\<rparr>,
    \<lparr>name = Some ''Twitter Chaotic'',
     command = Some ''celestecli --format short --platform twitter --topic "NIKKE" --tone "chaotic"\<newline>'',
     category = MenuCategoryContent\<rparr>,
    \<lparr>name = Some ''YouTube Desc'',
     command = Some ''celestecli --format long --platform youtube --topic "Streaming" --request "include links to website, socials, products"\<newline>'',
     category = MenuCategoryContent\<rparr>,
    \<lparr>name = Some ''NSFW Text'',
     command = Some ''celestecli --nsfw --format short --platform twitter --topic "NIKKE" --tone "explicit"\<newline>'',
     category = MenuCategoryNSFW\<rparr>,
    \<lparr>name = Some ''NSFW Image'',
     command = Some ''celestecli --nsfw --image --request "generate NSFW image of Celeste"\<newline>'',
     category = MenuCategoryNSFW\<rparr>,
    \<lparr>name = Some ''List Models'',
     command = Some ''celestecli --nsfw --list-models\<newline>'',
     category = MenuCategoryNSFW\<rparr>,
    \<lparr>name = None, command = None, category = MenuCategoryMain\<rparr>]\<close>

text \<open>
  A \<^verbatim>\<open>const CelesteCommand*\<close> is either \<^verbatim>\<open>NULL\<close> or the address of an element of the
  table: \<open>Cmd i\<close> stands for \<^verbatim>\<open>&commands[i]\<close>.
\<close>

datatype cmd_ptr = NULL | Cmd nat

text \<open>
  \<^verbatim>\<open>CelesteApp\<close>. \<^verbatim>\<open>uint8_t\<close> and \<^verbatim>\<open>uint32_t\<close> fields are words of that width.
  \<^verbatim>\<open>menu_start\<close> is never written by the program, and \<^verbatim>\<open>custom_command\<close> is only
  zeroed at startup.
\<close>

record CelesteApp =
  state :: AppState
  selected_item :: "8 word"
  menu_start :: "8 word"
  current_category :: MenuCategory
  current_command :: cmd_ptr
  custom_command :: "8 word list"
  splash_timer :: "32 word"
  running :: bool

section \<open>Command catalog\<close>

text \<open>
  The table is a parameter of the two catalog walks, so that they can be stated for any
  table; the program always passes \<^const>\<open>commands\<close>. Both loops run an \<^verbatim>\<open>uint8_t\<close>
  index until they meet an entry whose name is \<^verbatim>\<open>NULL\<close>. On a table without such an
  entry the index either leaves the array (undefined behaviour in C) or wraps around for
  ever; both are the result \<open>None\<close>.
\<close>

partial_function (option) count_menu_items_loop ::
  "CelesteCommand list \<Rightarrow> MenuCategory \<Rightarrow> 8 word \<Rightarrow> 8 word \<Rightarrow> 8 word option" where
  "count_menu_items_loop cmds cat i count =
     (if length cmds \<le> unat i then None
      else if name (cmds ! unat i) = None then Some count
      else count_menu_items_loop cmds cat (i + 1)
             (if category (cmds ! unat i) = cat then count + 1 else count))"

declare count_menu_items_loop.simps [code]

definition count_menu_items :: "CelesteCommand list \<Rightarrow> MenuCategory \<Rightarrow> 8 word option" where
  "count_menu_items cmds cat = count_menu_items_loop cmds cat 0 0"

partial_function (option) get_menu_item_loop ::
  "CelesteCommand list \<Rightarrow> MenuCategory \<Rightarrow> 8 word \<Rightarrow> 8 word \<Rightarrow> 8 word \<Rightarrow> cmd_ptr option" where
  "get_menu_item_loop cmds cat index i count =
     (if length cmds \<le> unat i then None
      else if name (cmds ! unat i) = None then Some NULL
      else if category (cmds ! unat i) = cat then
             (if count = index then Some (Cmd (unat i))
              else get_menu_item_loop cmds cat index (i + 1) (count + 1))
      else get_menu_item_loop cmds cat index (i + 1) count)"

declare get_menu_item_loop.simps [code]

definition get_menu_item ::
  "CelesteCommand list \<Rightarrow> MenuCategory \<Rightarrow> 8 word \<Rightarrow> cmd_ptr option" where
  "get_menu_item cmds cat index = get_menu_item_loop cmds cat index 0 0"

text \<open>
  Vocabulary for the catalog statements: the entries before the end marker, the tables
  both walks return on, and the positions of one category in declaration order.
\<close>

definition entries :: "CelesteCommand list \<Rightarrow> CelesteCommand list" where
  "entries cmds = takeWhile (\<lambda>e. name e \<noteq> None) cmds"

definition wf_catalog :: "CelesteCommand list \<Rightarrow> bool" where
  "wf_catalog cmds \<longleftrightarrow> length (entries cmds) < length cmds \<and> length (entries cmds) \<le> 255"

definition category_positions :: "CelesteCommand list \<Rightarrow> MenuCategory \<Rightarrow> nat list" where
  "category_positions cmds cat =
     filter (\<lambda>j. category (cmds ! j) = cat) [0..<length (entries cmds)]"

section \<open>Platform calls\<close>

text \<open>
  Modelled from the spec: the platform's calls \<^verbatim>\<open>furi_hal_usb_set_config\<close>,
  \<^verbatim>\<open>furi_hal_usb_is_connected\<close>, \<^verbatim>\<open>furi_delay_ms\<close>, \<^verbatim>\<open>furi_hal_hid_kb_press\<close> and
  \<^verbatim>\<open>furi_hal_hid_kb_release\<close> are not part of the source. The spec has the first
  activate a USB device class, the second report whether the host is connected, the
  third pause, and the last two emit press and release reports. Their effect on the
  device is kept as the USB interface that is currently configured and the chronological
  log of the calls made. \<^verbatim>\<open>usb_hid\<close> is the only interface the program names;
  \<^verbatim>\<open>usb_cdc_single\<close> stands for the serial interface the device exposes when no
  application has changed it. The host's answer to the \<open>n\<close>-th call of
  \<^verbatim>\<open>furi_hal_usb_is_connected\<close> is given by a function of \<open>n\<close>, so a signal that changes
  between two calls is covered.
\<close>

datatype FuriHalUsbInterface = usb_cdc_single | usb_hid

type_synonym HidKeyboardKey = "16 word"

datatype hal_call =
    UsbSetConfig FuriHalUsbInterface
  | DelayMs nat
  | KbPress HidKeyboardKey
  | KbRelease HidKeyboardKey

record hal =
  usb_config :: FuriHalUsbInterface
  calls :: "hal_call list"
  polls :: nat

definition furi_hal_usb_set_config :: "FuriHalUsbInterface \<Rightarrow> hal \<Rightarrow> hal" where
  "furi_hal_usb_set_config new_if h =
     h\<lparr>usb_config := new_if, calls := calls h @ [UsbSetConfig new_if]\<rparr>"

definition furi_hal_usb_is_connected :: "(nat \<Rightarrow> bool) \<Rightarrow> hal \<Rightarrow> bool \<times> hal" where
  "furi_hal_usb_is_connected conn h = (conn (polls h), h\<lparr>polls := polls h + 1\<rparr>)"

definition furi_delay_ms :: "nat \<Rightarrow> hal \<Rightarrow> hal" where
  "furi_delay_ms ms h = h\<lparr>calls := calls h @ [DelayMs ms]\<rparr>"

definition furi_hal_hid_kb_press :: "HidKeyboardKey \<Rightarrow> hal \<Rightarrow> hal" where
  "furi_hal_hid_kb_press button h = h\<lparr>calls := calls h @ [KbPress button]\<rparr>"

definition furi_hal_hid_kb_release :: "HidKeyboardKey \<Rightarrow> hal \<Rightarrow> hal" where
  "furi_hal_hid_kb_release button h = h\<lparr>calls := calls h @ [KbRelease button]\<rparr>"

text \<open>
  Modelled from the spec: the key codes are declared by the platform header, not by the
  source. The spec calls them standard HID keyboard usage IDs, so they have the values
  of the keyboard page of the USB HID usage tables, where the letters are consecutive
  from A and the digits 1 to 9 are consecutive from 1.
\<close>

definition HID_KEYBOARD_A :: HidKeyboardKey where "HID_KEYBOARD_A = 0x04"
definition HID_KEYBOARD_B :: HidKeyboardKey where "HID_KEYBOARD_B = 0x05"
definition HID_KEYBOARD_1 :: HidKeyboardKey where "HID_KEYBOARD_1 = 0x1E"
definition HID_KEYBOARD_0 :: HidKeyboardKey where "HID_KEYBOARD_0 = 0x27"
definition HID_KEYBOARD_RETURN :: HidKeyboardKey where "HID_KEYBOARD_RETURN = 0x28"
definition HID_KEYBOARD_SPACEBAR :: HidKeyboardKey where "HID_KEYBOARD_SPACEBAR = 0x2C"
definition HID_KEYBOARD_MINUS :: HidKeyboardKey where "HID_KEYBOARD_MINUS = 0x2D"
definition HID_KEYBOARD_APOSTROPHE :: HidKeyboardKey where "HID_KEYBOARD_APOSTROPHE = 0x34"
definition HID_KEYBOARD_LEFT_SHIFT :: HidKeyboardKey where "HID_KEYBOARD_LEFT_SHIFT = 0xE1"

section \<open>HID text emitter\<close>

definition send_key :: "HidKeyboardKey \<Rightarrow> bool \<Rightarrow> hal \<Rightarrow> hal" where
  "send_key k shift h =
     (let h = (if shift then furi_hal_hid_kb_press HID_KEYBOARD_LEFT_SHIFT h else h);
          h = furi_hal_hid_kb_press k h;
          h = furi_delay_ms 20 h;
          h = furi_hal_hid_kb_release k h;
          h = (if shift then furi_hal_hid_kb_release HID_KEYBOARD_LEFT_SHIFT h else h)
      in furi_delay_ms 10 h)"

text \<open>
  \<^verbatim>\<open>c - 'a'\<close> is \<^verbatim>\<open>int\<close> arithmetic in C; the sum is then narrowed to the key type.
\<close>

definition send_char :: "char \<Rightarrow> hal \<Rightarrow> hal" where
  "send_char c h =
     (if CHR ''a'' \<le> c \<and> c \<le> CHR ''z'' then
        send_key (HID_KEYBOARD_A + word_of_int (of_char c - of_char (CHR ''a''))) False h
      else if CHR ''A'' \<le> c \<and> c \<le> CHR ''Z'' then
        send_key (HID_KEYBOARD_A + word_of_int (of_char c - of_char (CHR ''A''))) True h
      else if c = CHR '' '' then
        send_key HID_KEYBOARD_SPACEBAR False h
      else if c = CHR 0x0A then
        furi_delay_ms 100 (send_key HID_KEYBOARD_RETURN False h)
      else if c = CHR ''-'' then
        send_key HID_KEYBOARD_MINUS False h
      else if c = CHR 0x22 then
        send_key HID_KEYBOARD_APOSTROPHE True h
      else if c = CHR ''0'' then
        send_key HID_KEYBOARD_0 False h
      else if CHR ''1'' \<le> c \<and> c \<le> CHR ''9'' then
        send_key (HID_KEYBOARD_1 + word_of_int (of_char c - of_char (CHR ''1''))) False h
      else h)"

text \<open>A C string ends at its first NUL byte.\<close>

definition strlen :: "string \<Rightarrow> nat" where
  "strlen s = length (takeWhile (\<lambda>c. c \<noteq> CHR 0x00) s)"

text \<open>The wait loop of \<^verbatim>\<open>send_command\<close>; \<open>timeout\<close> is its \<^verbatim>\<open>uint32_t\<close> counter.\<close>

function send_command_wait :: "(nat \<Rightarrow> bool) \<Rightarrow> 32 word \<Rightarrow> hal \<Rightarrow> hal" where
  "send_command_wait conn timeout h =
     (case furi_hal_usb_is_connected conn h of
        (connected, h') \<Rightarrow>
          if \<not> connected \<and> timeout < 500
          then send_command_wait conn (timeout + 1) (furi_delay_ms 10 h')
          else h')"
  by pat_completeness auto
termination
proof (relation "measure (\<lambda>(conn, timeout, h). 500 - unat timeout)")
  show "wf (measure (\<lambda>(conn, timeout, h). 500 - unat timeout))"
    by simp
next
  fix conn :: "nat \<Rightarrow> bool" and timeout :: "32 word" and h :: hal
    and x :: "bool \<times> hal" and connected :: bool and h' :: hal
  assume "\<not> connected \<and> timeout < 500"
  then have lt: "unat timeout < 500"
    by (simp add: word_less_nat_alt)
  then have "unat (timeout + 1) = unat timeout + 1"
    by (simp add: unat_word_ariths)
  with lt show "((conn, timeout + 1, furi_delay_ms 10 h'), conn, timeout, h)
      \<in> measure (\<lambda>(conn, timeout, h). 500 - unat timeout)"
    by simp
qed

text \<open>The typing loop of \<^verbatim>\<open>send_command\<close>; \<open>i\<close> is its \<^verbatim>\<open>size_t\<close> index.\<close>

function send_command_type :: "string \<Rightarrow> nat \<Rightarrow> hal \<Rightarrow> hal" where
  "send_command_type text i h =
     (if i < strlen text
      then send_command_type text (i + 1) (send_char (text ! i) h)
      else h)"
  by pat_completeness auto
termination
  by (relation "measure (\<lambda>(text, i, h). strlen text - i)") auto

declare send_command_wait.simps [simp del]
declare send_command_type.simps [simp del]

definition send_command :: "(nat \<Rightarrow> bool) \<Rightarrow> string \<Rightarrow> hal \<Rightarrow> hal" where
  "send_command conn text h =
     (let h = furi_hal_usb_set_config usb_hid h;
          h = send_command_wait conn 0 h
      in case furi_hal_usb_is_connected conn h of
           (connected, h) \<Rightarrow>
             if \<not> connected then h
             else
               let h = furi_delay_ms 500 h;
                   h = send_command_type text 0 h
               in furi_hal_usb_set_config usb_hid h)"

text \<open>
  Readings of the call log used in the statements: which calls are key events, the time
  the calls of a log wait, the calls \<^verbatim>\<open>send_char\<close> makes for one character and the
  typing loop for a text (read off a device whose log is empty), and the characters the
  description lists as mapped.
\<close>

fun is_key_call :: "hal_call \<Rightarrow> bool" where
  "is_key_call (KbPress k) = True"
| "is_key_call (KbRelease k) = True"
| "is_key_call c = False"

fun delay_of :: "hal_call \<Rightarrow> nat" where
  "delay_of (DelayMs ms) = ms"
| "delay_of c = 0"

definition elapsed_ms :: "hal_call list \<Rightarrow> nat" where
  "elapsed_ms cs = sum_list (map delay_of cs)"

definition no_calls :: hal where
  "no_calls = \<lparr>usb_config = usb_hid, calls = [], polls = 0\<rparr>"

definition char_calls :: "char \<Rightarrow> hal_call list" where
  "char_calls c = calls (send_char c no_calls)"

definition typed_calls :: "string \<Rightarrow> hal_call list" where
  "typed_calls text = concat (map char_calls (take (strlen text) text))"

definition mapped_char :: "char \<Rightarrow> bool" where
  "mapped_char c \<longleftrightarrow>
     (CHR ''a'' \<le> c \<and> c \<le> CHR ''z'') \<or> (CHR ''A'' \<le> c \<and> c \<le> CHR ''Z'') \<or>
     (CHR ''0'' \<le> c \<and> c \<le> CHR ''9'') \<or>
     c = CHR '' '' \<or> c = CHR 0x0A \<or> c = CHR ''-'' \<or> c = CHR 0x22"

section \<open>Rendering a submenu\<close>

text \<open>
  Modelled from the spec: the canvas and its draw calls are the platform's, not part of
  the source; a frame is the list of the draw calls made on it, with their arguments. A
  string argument may be \<^verbatim>\<open>NULL\<close>: \<^verbatim>\<open>headers[]\<close> has no initialiser for
  \<^verbatim>\<open>MenuCategoryMain\<close>.
\<close>

datatype Font = FontPrimary | FontSecondary

datatype Align = AlignCenter | AlignTop | AlignBottom

datatype canvas_call =
    CanvasClear
  | CanvasSetFont Font
  | CanvasDrawStr "8 word" "8 word" "string option"
  | CanvasDrawStrAligned "8 word" "8 word" Align Align "string option"

fun headers :: "MenuCategory \<Rightarrow> string option" where
  "headers MenuCategoryTarot = Some ''TAROT READINGS''"
| "headers MenuCategoryContent = Some ''CONTENT GEN''"
| "headers MenuCategoryNSFW = Some ''NSFW MODE''"
| "headers MenuCategoryMain = None"

text \<open>
  Lines 162 to 167: the first visible row. \<^verbatim>\<open>selected_item - visible_count + 1\<close> is
  computed in \<^verbatim>\<open>int\<close> and stored in an \<^verbatim>\<open>uint8_t\<close>.
\<close>

definition visible_start_of :: "8 word \<Rightarrow> 8 word \<Rightarrow> 8 word" where
  "visible_start_of selected visible_count =
     (if selected \<ge> visible_count
      then word_of_int (uint selected - uint visible_count + 1)
      else 0)"

text \<open>
  The row loop of \<^verbatim>\<open>render_submenu\<close>, with its locals as arguments and the draw calls
  made so far as accumulator. \<^verbatim>\<open>i - visible_start\<close> is \<^verbatim>\<open>int\<close> arithmetic.
\<close>

function render_submenu_rows ::
  "CelesteCommand list \<Rightarrow> CelesteApp \<Rightarrow> 8 word \<Rightarrow> 8 word \<Rightarrow> 8 word \<Rightarrow> 8 word \<Rightarrow> 8 word \<Rightarrow>
     canvas_call list \<Rightarrow> canvas_call list option" where
  "render_submenu_rows cmds app item_count visible_start visible_count i y_offset canvas =
     (if i < item_count \<and> uint i - uint visible_start < uint visible_count then
        (case get_menu_item cmds (current_category app) i of
           None \<Rightarrow> None
         | Some NULL \<Rightarrow>
             render_submenu_rows cmds app item_count visible_start visible_count (i + 1)
               y_offset canvas
         | Some (Cmd j) \<Rightarrow>
             if length cmds \<le> j then None
             else
               let canvas = (if i = selected_item app
                             then canvas @ [CanvasDrawStr 4 y_offset (Some ''>'')]
                             else canvas);
                   canvas = canvas @ [CanvasDrawStr 12 y_offset (name (cmds ! j))]
               in render_submenu_rows cmds app item_count visible_start visible_count (i + 1)
                    (y_offset + 10) canvas)
      else Some canvas)"
  by pat_completeness auto
termination
proof (relation "measure (\<lambda>(cmds, app, item_count, vs, vc, i, y, canvas). unat item_count - unat i)",
    goal_cases)
  case 1
  show ?case by simp
next
  case (2 cmds app item_count visible_start visible_count i y_offset canvas)
  then have "unat i < unat item_count"
    by (simp add: word_less_nat_alt)
  moreover from this have "unat (i + 1) = unat i + 1"
    using unsigned_less [of item_count, where ?'a = nat] by (simp add: unat_word_ariths)
  ultimately show ?case by simp
next
  case (3 cmds app item_count visible_start visible_count i y_offset canvas x2 j xa xb)
  then have "unat i < unat item_count"
    by (simp add: word_less_nat_alt)
  moreover from this have "unat (i + 1) = unat i + 1"
    using unsigned_less [of item_count, where ?'a = nat] by (simp add: unat_word_ariths)
  ultimately show ?case by simp
qed

declare render_submenu_rows.simps [simp del]

definition render_submenu :: "CelesteCommand list \<Rightarrow> CelesteApp \<Rightarrow> canvas_call list option" where
  "render_submenu cmds app =
     (let canvas = [CanvasClear, CanvasSetFont FontPrimary,
                    CanvasDrawStr 2 10 (headers (current_category app))]
      in case count_menu_items cmds (current_category app) of
           None \<Rightarrow> None
         | Some item_count \<Rightarrow>
             (case render_submenu_rows cmds app item_count
                     (visible_start_of (selected_item app) 4) 4
                     (visible_start_of (selected_item app) 4) 20 canvas of
                None \<Rightarrow> None
              | Some canvas \<Rightarrow>
                  Some (canvas @ [CanvasSetFont FontSecondary,
                                  CanvasDrawStrAligned 64 62 AlignCenter AlignBottom
                                    (Some ''OK=Send  Back=Menu'')])))"

text \<open>
  Vocabulary for the rendering statements: the draw calls of the row of rank \<open>k\<close> at
  height \<open>y\<close> (the marker first when \<open>k\<close> is the cursor), the draw calls of a list of
  ranks at heights ten apart, and a table of ten Content entries named a to j.
\<close>

definition row_calls :: "CelesteCommand list \<Rightarrow> CelesteApp \<Rightarrow> 8 word \<Rightarrow> nat \<Rightarrow> canvas_call list" where
  "row_calls cmds app y k =
     (if of_nat k = selected_item app then [CanvasDrawStr 4 y (Some ''>'')] else []) @
     [CanvasDrawStr 12 y (name (cmds ! (category_positions cmds (current_category app) ! k)))]"

fun rows_from :: "CelesteCommand list \<Rightarrow> CelesteApp \<Rightarrow> 8 word \<Rightarrow> nat list \<Rightarrow> canvas_call list" where
  "rows_from cmds app y [] = []"
| "rows_from cmds app y (k # ks) = row_calls cmds app y k @ rows_from cmds app (y + 10) ks"

definition sample_catalog :: "CelesteCommand list" where
  "sample_catalog =
     map (\<lambda>c. \<lparr>name = Some [c], command = Some [c, CHR 0x0A], category = MenuCategoryContent\<rparr>)
       ''abcdefghij'' @
     [\<lparr>name = None, command = None, category = MenuCategoryMain\<rparr>]"

section \<open>Menu state machine\<close>

text \<open>
  Modelled from the spec: the input event of the platform, a kind of edge and one of the
  keys of the device, is not declared by the source.
\<close>

datatype InputType =
    InputTypePress
  | InputTypeRelease
  | InputTypeShort
  | InputTypeLong
  | InputTypeRepeat

datatype InputKey =
    InputKeyUp
  | InputKeyDown
  | InputKeyRight
  | InputKeyLeft
  | InputKeyOk
  | InputKeyBack

record InputEvent =
  type :: InputType
  key :: InputKey

definition in_submenu :: "CelesteApp \<Rightarrow> bool" where
  "in_submenu app \<longleftrightarrow>
     state app = AppStateTarotMenu \<or> state app = AppStateContentMenu \<or>
     state app = AppStateNSFWMenu"

text \<open>
  \<^verbatim>\<open>input_callback\<close> on the application state and the device. The result is \<open>None\<close>
  where a catalog walk does not return or a \<^verbatim>\<open>NULL\<close> command text would be read.
  \<^verbatim>\<open>selected_item < item_count - 1\<close> compares in \<^verbatim>\<open>int\<close>, so an empty category gives
  \<open>-1\<close> on the right.
\<close>

definition input_callback ::
  "CelesteCommand list \<Rightarrow> (nat \<Rightarrow> bool) \<Rightarrow> InputEvent \<Rightarrow> CelesteApp \<times> hal \<Rightarrow>
     (CelesteApp \<times> hal) option" where
  "input_callback cmds conn input_event w =
     (case w of (app, h) \<Rightarrow>
      if type input_event = InputTypePress then
        (case key input_event of
           InputKeyUp \<Rightarrow>
             if state app = AppStateMainMenu then
               (if selected_item app > 0
                then Some (app\<lparr>selected_item := selected_item app - 1\<rparr>, h)
                else Some (app, h))
             else if in_submenu app then
               (case count_menu_items cmds (current_category app) of
                  None \<Rightarrow> None
                | Some item_count \<Rightarrow>
                    if selected_item app > 0
                    then Some (app\<lparr>selected_item := selected_item app - 1\<rparr>, h)
                    else Some (app, h))
             else Some (app, h)
         | InputKeyDown \<Rightarrow>
             if state app = AppStateMainMenu then
               (if selected_item app < 3
                then Some (app\<lparr>selected_item := selected_item app + 1\<rparr>, h)
                else Some (app, h))
             else if in_submenu app then
               (case count_menu_items cmds (current_category app) of
                  None \<Rightarrow> None
                | Some item_count \<Rightarrow>
                    if uint (selected_item app) < uint item_count - 1
                    then Some (app\<lparr>selected_item := selected_item app + 1\<rparr>, h)
                    else Some (app, h))
             else Some (app, h)
         | InputKeyOk \<Rightarrow>
             if state app = AppStateSplash then
               Some (app\<lparr>state := AppStateMainMenu, selected_item := 0\<rparr>, h)
             else if state app = AppStateMainMenu then
               (if selected_item app = 0 then
                  Some (app\<lparr>state := AppStateTarotMenu,
                            current_category := MenuCategoryTarot,
                            selected_item := 0\<rparr>, h)
                else if selected_item app = 1 then
                  Some (app\<lparr>state := AppStateContentMenu,
                            current_category := MenuCategoryContent,
                            selected_item := 0\<rparr>, h)
                else if selected_item app = 2 then
                  Some (app\<lparr>state := AppStateNSFWMenu,
                            current_category := MenuCategoryNSFW,
                            selected_item := 0\<rparr>, h)
                else Some (app, h))
             else if in_submenu app then
               (case get_menu_item cmds (current_category app) (selected_item app) of
                  None \<Rightarrow> None
                | Some NULL \<Rightarrow> Some (app, h)
                | Some (Cmd j) \<Rightarrow>
                    Some (app\<lparr>current_command := Cmd j, state := AppStateConfirm\<rparr>, h))
             else if state app = AppStateConfirm then
               (case current_command app of
                  NULL \<Rightarrow> Some (app, h)
                | Cmd j \<Rightarrow>
                    if length cmds \<le> j then None
                    else
                      (case command (cmds ! j) of
                         None \<Rightarrow> None
                       | Some text \<Rightarrow>
                           let app = app\<lparr>state := AppStateExecuting\<rparr>;
                               h = send_command conn text h;
                               h = furi_delay_ms 1000 h
                           in Some (app\<lparr>state := AppStateMainMenu, selected_item := 0\<rparr>, h)))
             else Some (app, h)
         | InputKeyBack \<Rightarrow>
             if state app = AppStateSplash then
               Some (app\<lparr>running := False\<rparr>, h)
             else if state app = AppStateMainMenu then
               Some (app\<lparr>running := False\<rparr>, h)
             else if in_submenu app then
               Some (app\<lparr>state := AppStateMainMenu, selected_item := 0\<rparr>, h)
             else if state app = AppStateConfirm then
               (let app = app\<lparr>state := AppStateTarotMenu\<rparr>
                in if current_category app = MenuCategoryContent then
                     Some (app\<lparr>state := AppStateContentMenu\<rparr>, h)
                   else if current_category app = MenuCategoryNSFW then
                     Some (app\<lparr>state := AppStateNSFWMenu\<rparr>, h)
                   else Some (app, h))
             else if state app = AppStateExecuting then
               Some (app\<lparr>state := AppStateMainMenu, selected_item := 0\<rparr>, h)
             else Some (app, h)
         | _ \<Rightarrow> Some (app, h))
      else Some (app, h))"

section \<open>Application loop\<close>

text \<open>
  The state \<^verbatim>\<open>celeste_cli_app\<close> sets up before its loop; \<open>garbage\<close> is what \<^verbatim>\<open>malloc\<close>
  left in the field the program never writes.
\<close>

definition celeste_cli_app_init :: "8 word \<Rightarrow> CelesteApp" where
  "celeste_cli_app_init garbage =
     \<lparr>state = AppStateSplash,
      selected_item = 0,
      menu_start = garbage,
      current_category = MenuCategoryMain,
      current_command = NULL,
      custom_command = replicate 256 0,
      splash_timer = 0,
      running = True\<rparr>"

text \<open>One turn of the main loop on the application state (the splash timer).\<close>

definition main_loop_body :: "CelesteApp \<Rightarrow> CelesteApp" where
  "main_loop_body app =
     (if state app = AppStateSplash then
        (let app = app\<lparr>splash_timer := splash_timer app + 1\<rparr>
         in if splash_timer app \<ge> 300
            then app\<lparr>state := AppStateMainMenu, selected_item := 0\<rparr>
            else app)
      else app)"

text \<open>
  The application states the program can be in: the initial one, and from any of them the
  state after a turn of the main loop, after an input event has been handled on the table
  \<^const>\<open>commands\<close>, and the state shown while a send is in flight (between lines 378 and
  381 of \<^verbatim>\<open>input_callback\<close>).
\<close>

inductive reachable :: "CelesteApp \<Rightarrow> bool" where
  start: "reachable (celeste_cli_app_init garbage)"
| loop: "reachable app \<Longrightarrow> reachable (main_loop_body app)"
| input: "reachable app \<Longrightarrow> input_callback commands conn input_event (app, h) = Some (app', h')
          \<Longrightarrow> reachable app'"
| sending: "reachable app \<Longrightarrow> state app = AppStateConfirm \<Longrightarrow> current_command app \<noteq> NULL
          \<Longrightarrow> reachable (app\<lparr>state := AppStateExecuting\<rparr>)"

text \<open>
  The number of rows of the list behind a screen: four on the main menu, the entries of
  the current category on a submenu and on the confirmation shown over it.
\<close>

definition item_count_of :: "CelesteApp \<Rightarrow> 8 word option" where
  "item_count_of app =
     (if state app = AppStateMainMenu then Some 4
      else if in_submenu app \<or> state app = AppStateConfirm
      then count_menu_items commands (current_category app)
      else None)"

text \<open>
  What holds of the cursor, the category and the staged command on each screen; shown
  below to hold in every state the program can be in.
\<close>

fun state_inv :: "AppState \<Rightarrow> 8 word \<Rightarrow> MenuCategory \<Rightarrow> cmd_ptr \<Rightarrow> bool" where
  "state_inv AppStateMainMenu sel cat cmd \<longleftrightarrow> unat sel < 4"
| "state_inv AppStateTarotMenu sel cat cmd \<longleftrightarrow> cat = MenuCategoryTarot \<and> unat sel < 5"
| "state_inv AppStateContentMenu sel cat cmd \<longleftrightarrow> cat = MenuCategoryContent \<and> unat sel < 4"
| "state_inv AppStateNSFWMenu sel cat cmd \<longleftrightarrow> cat = MenuCategoryNSFW \<and> unat sel < 3"
| "state_inv AppStateConfirm sel cat cmd \<longleftrightarrow>
     cat \<noteq> MenuCategoryMain \<and> unat sel < length (category_positions commands cat) \<and>
     (\<exists>j<12. cmd = Cmd j)"
| "state_inv AppStateExecuting sel cat cmd \<longleftrightarrow> (\<exists>j<12. cmd = Cmd j)"
| "state_inv AppStateSplash sel cat cmd \<longleftrightarrow> True"
| "state_inv AppStateCustomInput sel cat cmd \<longleftrightarrow> True"

definition app_inv :: "CelesteApp \<Rightarrow> bool" where
  "app_inv app \<longleftrightarrow>
     state_inv (state app) (selected_item app) (current_category app) (current_command app)"

text \<open>
  A press of a key, and the application state on a given screen with a given cursor,
  category and staged command (the other fields as at startup), for the examples.
\<close>

definition press :: "InputKey \<Rightarrow> InputEvent" where
  "press k = \<lparr>type = InputTypePress, key = k\<rparr>"

definition at_screen :: "AppState \<Rightarrow> 8 word \<Rightarrow> MenuCategory \<Rightarrow> cmd_ptr \<Rightarrow> CelesteApp" where
  "at_screen s sel cat cmd =
     (celeste_cli_app_init 0)\<lparr>state := s, selected_item := sel, current_category := cat,
       current_command := cmd\<rparr>"

section \<open>Catalog walks return what the filtered table says\<close>

lemma entries_nth: "j < length (entries cmds) \<Longrightarrow> entries cmds ! j = cmds ! j"
  unfolding entries_def by (rule takeWhile_nth)

lemma entries_named: "j < length (entries cmds) \<Longrightarrow> name (cmds ! j) \<noteq> None"
proof -
  assume j: "j < length (entries cmds)"
  then have "entries cmds ! j \<in> set (takeWhile (\<lambda>e. name e \<noteq> None) cmds)"
    unfolding entries_def by (rule nth_mem)
  then have "name (entries cmds ! j) \<noteq> None"
    by (rule set_takeWhileD [THEN conjunct2])
  with j show ?thesis by (simp add: entries_nth)
qed

lemma entries_marker:
  "length (entries cmds) < length cmds \<Longrightarrow> name (cmds ! length (entries cmds)) = None"
  unfolding entries_def using nth_length_takeWhile [of "\<lambda>e. name e \<noteq> None" cmds] by simp

lemma count_loop_from:
  assumes wf: "wf_catalog cmds" and le: "i \<le> length (entries cmds)"
  shows "count_menu_items_loop cmds cat (of_nat i) c =
           Some (c + of_nat (length (filter (\<lambda>j. category (cmds ! j) = cat)
                                        [i..<length (entries cmds)])))"
  using le
proof (induction i arbitrary: c rule: inc_induct)
  case base
  from wf have n: "length (entries cmds) < length cmds" "length (entries cmds) \<le> 255"
    by (simp_all add: wf_catalog_def)
  then have u: "unat (of_nat (length (entries cmds)) :: 8 word) = length (entries cmds)"
    by (simp add: unat_of_nat)
  show ?case
    using n by (subst count_menu_items_loop.simps) (simp add: u entries_marker)
next
  case (step i)
  from wf have n: "length (entries cmds) < length cmds" "length (entries cmds) \<le> 255"
    by (simp_all add: wf_catalog_def)
  with step.hyps have u: "unat (of_nat i :: 8 word) = i"
    by (simp add: unat_of_nat)
  have s: "(of_nat i :: 8 word) + 1 = of_nat (Suc i)"
    by simp
  from step.hyps have nm: "name (cmds ! i) \<noteq> None"
    by (simp add: entries_named)
  from step.hyps have upt: "[i..<length (entries cmds)] = i # [Suc i..<length (entries cmds)]"
    by (simp add: upt_conv_Cons)
  have "count_menu_items_loop cmds cat (of_nat i) c =
          count_menu_items_loop cmds cat (of_nat (Suc i))
            (if category (cmds ! i) = cat then c + 1 else c)"
    using step.hyps n
    by (subst count_menu_items_loop.simps) (simp add: u nm flip: s del: of_nat_Suc)
  also have "\<dots> = Some ((if category (cmds ! i) = cat then c + 1 else c) +
      of_nat (length (filter (\<lambda>j. category (cmds ! j) = cat) [Suc i..<length (entries cmds)])))"
    by (rule step.IH)
  also have "\<dots> = Some (c + of_nat (length (filter (\<lambda>j. category (cmds ! j) = cat)
      [i..<length (entries cmds)])))"
    by (simp add: upt)
  finally show ?case .
qed


lemma get_loop_from:
  assumes wf: "wf_catalog cmds" and le: "i \<le> length (entries cmds)"
    and c: "c \<le> index"
  shows "get_menu_item_loop cmds cat index (of_nat i) c =
           Some (let ms = filter (\<lambda>j. category (cmds ! j) = cat) [i..<length (entries cmds)];
                     k = unat index - unat c
                 in if k < length ms then Cmd (ms ! k) else NULL)"
  using le c
proof (induction i arbitrary: c rule: inc_induct)
  case base
  from wf have n: "length (entries cmds) < length cmds" "length (entries cmds) \<le> 255"
    by (simp_all add: wf_catalog_def)
  then have u: "unat (of_nat (length (entries cmds)) :: 8 word) = length (entries cmds)"
    by (simp add: unat_of_nat)
  show ?case
    using n by (subst get_menu_item_loop.simps) (simp add: u entries_marker)
next
  case (step i)
  let ?n = "length (entries cmds)"
  let ?P = "\<lambda>j. category (cmds ! j) = cat"
  from wf have n: "?n < length cmds" "?n \<le> 255"
    by (simp_all add: wf_catalog_def)
  with step.hyps have u: "unat (of_nat i :: 8 word) = i"
    by (simp add: unat_of_nat)
  have s: "(of_nat i :: 8 word) + 1 = of_nat (Suc i)"
    by simp
  from step.hyps have nm: "name (cmds ! i) \<noteq> None"
    by (simp add: entries_named)
  from step.hyps have upt: "[i..<?n] = i # [Suc i..<?n]"
    by (simp add: upt_conv_Cons)
  show ?case
  proof (cases "category (cmds ! i) = cat")
    case False
    have "get_menu_item_loop cmds cat index (of_nat i) c =
            get_menu_item_loop cmds cat index (of_nat (Suc i)) c"
      using step.hyps n False
      by (subst get_menu_item_loop.simps) (simp add: u nm flip: s del: of_nat_Suc)
    also note step.IH [OF step.prems]
    finally show ?thesis
      using False by (simp add: upt)
  next
    case True
    show ?thesis
    proof (cases "c = index")
      case eq: True
      have "get_menu_item_loop cmds cat index (of_nat i) c = Some (Cmd i)"
        using step.hyps n True eq
        by (subst get_menu_item_loop.simps) (simp add: u nm)
      then show ?thesis
        using True eq by (simp add: upt)
    next
      case neq: False
      with step.prems have lt: "unat c < unat index"
        by (simp add: word_less_nat_alt word_le_nat_alt word_unat_eq_iff)
      then have uc: "unat (c + 1) = Suc (unat c)"
        using unsigned_less [of index, where ?'a = nat] by (simp add: unat_word_ariths)
      with lt have c1: "c + 1 \<le> index"
        by (simp add: word_le_nat_alt)
      have "get_menu_item_loop cmds cat index (of_nat i) c =
              get_menu_item_loop cmds cat index (of_nat (Suc i)) (c + 1)"
        using step.hyps n True neq
        by (subst get_menu_item_loop.simps) (simp add: u nm flip: s del: of_nat_Suc)
      also note step.IH [OF c1]
      finally have "get_menu_item_loop cmds cat index (of_nat i) c =
          Some (let ms = filter ?P [Suc i..<?n]; k = unat index - Suc (unat c)
                in if k < length ms then Cmd (ms ! k) else NULL)"
        by (simp add: uc)
      moreover from lt have "unat index - unat c = Suc (unat index - Suc (unat c))"
        by arith
      ultimately show ?thesis
        using True by (simp add: upt Let_def)
    qed
  qed
qed


lemma category_positions_entries:
  "map ((!) cmds) (category_positions cmds cat) =
     filter (\<lambda>e. category e = cat) (entries cmds)"
proof -
  have "entries cmds = map ((!) cmds) [0..<length (entries cmds)]"
    by (rule nth_equalityI) (simp_all add: entries_nth)
  then have "filter (\<lambda>e. category e = cat) (entries cmds) =
      filter (\<lambda>e. category e = cat) (map ((!) cmds) [0..<length (entries cmds)])"
    by simp
  also have "\<dots> = map ((!) cmds) (category_positions cmds cat)"
    by (simp add: filter_map category_positions_def comp_def)
  finally show ?thesis by simp
qed

lemma category_positions_length:
  "length (category_positions cmds cat) \<le> length (entries cmds)"
  unfolding category_positions_def using length_filter_le [of _ "[0..<length (entries cmds)]"]
  by simp

lemma count_menu_items_wf:
  assumes "wf_catalog cmds"
  shows "count_menu_items cmds cat = Some (of_nat (length (category_positions cmds cat)))"
  using count_loop_from [OF assms, of 0 cat 0]
  by (simp add: count_menu_items_def category_positions_def)

lemma get_menu_item_wf:
  assumes "wf_catalog cmds"
  shows "get_menu_item cmds cat index =
           Some (if unat index < length (category_positions cmds cat)
                 then Cmd (category_positions cmds cat ! unat index) else NULL)"
  using get_loop_from [OF assms, of 0 0 index cat]
  by (simp add: get_menu_item_def category_positions_def Let_def)

lemma unat_count_wf:
  assumes "wf_catalog cmds"
  shows "unat (of_nat (length (category_positions cmds cat)) :: 8 word) =
           length (category_positions cmds cat)"
proof -
  from assms have "length (entries cmds) \<le> 255"
    by (simp add: wf_catalog_def)
  with category_positions_length [of cmds cat]
  have "length (category_positions cmds cat) < 256"
    by simp
  then show ?thesis
    by (simp add: unat_of_nat)
qed

lemma wf_catalog_commands: "wf_catalog commands"
  by (simp add: wf_catalog_def entries_def commands_def)

lemma entries_commands: "length (entries commands) = 12"
  by (simp add: entries_def commands_def)

lemma positions_commands:
  "category_positions commands MenuCategoryMain = []"
  "category_positions commands MenuCategoryTarot = [0, 1, 2, 3, 4]"
  "category_positions commands MenuCategoryContent = [5, 6, 7, 8]"
  "category_positions commands MenuCategoryNSFW = [9, 10, 11]"
  by (simp_all add: category_positions_def entries_commands upt_rec) (simp_all add: commands_def)

text \<open>
  Claim C4. On a table whose end marker comes within the reach of the \<^verbatim>\<open>uint8_t\<close> index,
  \<^verbatim>\<open>count_menu_items\<close> returns the number of entries before the end marker whose
  category is \<open>C\<close>. The positions of these entries, in increasing order, are
  \<open>category_positions cmds C\<close>: they are strictly increasing, they are exactly the
  positions before the end marker that hold category \<open>C\<close>, and reading the table at
  them gives the entries of category \<open>C\<close> in declaration order. For every index below
  the count \<^verbatim>\<open>get_menu_item\<close> returns the address of the entry at the position of that
  rank, and for every index from the count on it returns \<^verbatim>\<open>NULL\<close>.
\<close>

theorem catalog_count_and_lookup:
  assumes "wf_catalog cmds"
  shows "\<exists>cnt. count_menu_items cmds C = Some cnt
           \<and> unat cnt = length (filter (\<lambda>e. category e = C) (entries cmds))
           \<and> map ((!) cmds) (category_positions cmds C) =
               filter (\<lambda>e. category e = C) (entries cmds)
           \<and> sorted_wrt (<) (category_positions cmds C)
           \<and> set (category_positions cmds C) =
               {j. j < length (entries cmds) \<and> category (cmds ! j) = C}
           \<and> (\<forall>i. i < cnt \<longrightarrow>
                 get_menu_item cmds C i = Some (Cmd (category_positions cmds C ! unat i)))
           \<and> (\<forall>i. cnt \<le> i \<longrightarrow> get_menu_item cmds C i = Some NULL)"
proof -
  let ?ps = "category_positions cmds C"
  let ?cnt = "of_nat (length ?ps) :: 8 word"
  have u: "unat ?cnt = length ?ps"
    by (rule unat_count_wf [OF assms])
  have "count_menu_items cmds C = Some ?cnt"
    by (rule count_menu_items_wf [OF assms])
  moreover have "unat ?cnt = length (filter (\<lambda>e. category e = C) (entries cmds))"
  proof -
    have "length ?ps = length (map ((!) cmds) ?ps)"
      by simp
    also have "\<dots> = length (filter (\<lambda>e. category e = C) (entries cmds))"
      by (simp only: category_positions_entries)
    finally show ?thesis
      unfolding u .
  qed
  moreover have "sorted_wrt (<) ?ps"
    unfolding category_positions_def by (rule sorted_wrt_filter) simp
  moreover have "set ?ps = {j. j < length (entries cmds) \<and> category (cmds ! j) = C}"
    by (auto simp: category_positions_def)
  moreover have "\<forall>i. i < ?cnt \<longrightarrow> get_menu_item cmds C i = Some (Cmd (?ps ! unat i))"
    by (simp add: get_menu_item_wf [OF assms] word_less_nat_alt u)
  moreover have "\<forall>i. ?cnt \<le> i \<longrightarrow> get_menu_item cmds C i = Some NULL"
    by (simp add: get_menu_item_wf [OF assms] word_le_nat_alt u)
  ultimately show ?thesis
    using category_positions_entries [of cmds C] by blast
qed

text \<open>The compiled-in table, category Content: four entries, the third at position 7.\<close>

theorem catalog_count_and_lookup_witness:
  "wf_catalog commands
   \<and> count_menu_items commands MenuCategoryContent = Some 4
   \<and> (2 :: 8 word) < 4
   \<and> get_menu_item commands MenuCategoryContent 2 = Some (Cmd 7)
   \<and> name (commands ! 7) = Some ''Twitter Chaotic''
   \<and> (4 :: 8 word) \<le> 4
   \<and> get_menu_item commands MenuCategoryContent 4 = Some NULL"
proof -
  from catalog_count_and_lookup [OF wf_catalog_commands, of MenuCategoryContent]
  obtain cnt where cnt: "count_menu_items commands MenuCategoryContent = Some cnt"
    and n: "unat cnt = length (filter (\<lambda>e. category e = MenuCategoryContent) (entries commands))"
    and found: "\<forall>i. i < cnt \<longrightarrow> get_menu_item commands MenuCategoryContent i =
        Some (Cmd (category_positions commands MenuCategoryContent ! unat i))"
    and missing: "\<forall>i. cnt \<le> i \<longrightarrow> get_menu_item commands MenuCategoryContent i = Some NULL"
    by blast
  have "length (filter (\<lambda>e. category e = MenuCategoryContent) (entries commands)) = 4"
    by (simp add: entries_def commands_def)
  with n have "unat cnt = unat (4 :: 8 word)"
    by simp
  then have c4: "cnt = 4"
    by (simp only: word_unat_eq_iff)
  from found [rule_format, of 2] missing [rule_format, of 4] cnt show ?thesis
    by (simp add: c4 wf_catalog_commands positions_commands) (simp add: commands_def)
qed

section \<open>The text emitter on the call log\<close>

lemmas hal_defs = furi_hal_usb_set_config_def furi_hal_usb_is_connected_def furi_delay_ms_def
  furi_hal_hid_kb_press_def furi_hal_hid_kb_release_def

lemmas key_defs = HID_KEYBOARD_A_def HID_KEYBOARD_B_def HID_KEYBOARD_1_def HID_KEYBOARD_0_def
  HID_KEYBOARD_RETURN_def HID_KEYBOARD_SPACEBAR_def HID_KEYBOARD_MINUS_def
  HID_KEYBOARD_APOSTROPHE_def HID_KEYBOARD_LEFT_SHIFT_def

lemma send_key_appends:
  "send_key k shift h = h\<lparr>calls := calls h @ calls (send_key k shift no_calls)\<rparr>"
  by (simp add: send_key_def hal_defs no_calls_def)

lemma send_char_appends: "send_char c h = h\<lparr>calls := calls h @ char_calls c\<rparr>"
  unfolding char_calls_def send_char_def
  by (simp add: send_key_appends [of _ _ h] furi_delay_ms_def) (simp add: send_key_def hal_defs no_calls_def)

lemma strlen_le: "strlen text \<le> length text"
  unfolding strlen_def by (rule length_takeWhile_le)

lemma send_command_type_appends:
  "i \<le> strlen text \<Longrightarrow> send_command_type text i h =
     h\<lparr>calls := calls h @ concat (map char_calls (drop i (take (strlen text) text)))\<rparr>"
proof (induction i arbitrary: h rule: inc_induct)
  case base
  show ?case
    by (subst send_command_type.simps) simp
next
  case (step i)
  from step.hyps strlen_le [of "text"] have len: "i < length (take (strlen text) text)"
    by simp
  have "drop i (take (strlen text) text) = text ! i # drop (Suc i) (take (strlen text) text)"
    using Cons_nth_drop_Suc [OF len] step.hyps by simp
  then show ?case
    using step.hyps by (subst send_command_type.simps) (simp add: step.IH send_char_appends [of _ h])
qed

lemma send_command_type_calls:
  "send_command_type text 0 h = h\<lparr>calls := calls h @ typed_calls text\<rparr>"
  by (simp add: send_command_type_appends typed_calls_def)

lemma wait_loop:
  assumes "d \<le> 500 - unat t"
    and "\<forall>j<d. \<not> conn (polls h + j)"
    and "d < 500 - unat t \<longrightarrow> conn (polls h + d)"
  shows "send_command_wait conn t h =
           h\<lparr>calls := calls h @ replicate d (DelayMs 10), polls := polls h + d + 1\<rparr>"
  using assms
proof (induction d arbitrary: t h)
  case 0
  have "t < 500 \<longleftrightarrow> unat t < 500"
    by (simp add: word_less_nat_alt)
  with 0 show ?case
    by (subst send_command_wait.simps) (auto simp add: hal_defs)
next
  case (Suc d)
  from Suc.prems have lt: "unat t < 500"
    by simp
  then have t: "t < 500"
    by (simp add: word_less_nat_alt)
  from lt have u: "unat (t + 1) = unat t + 1"
    by (simp add: unat_word_ariths)
  let ?h = "furi_delay_ms 10 (h\<lparr>polls := polls h + 1\<rparr>)"
  from Suc.prems have now: "\<not> conn (polls h)"
    by auto
  have step: "send_command_wait conn t h = send_command_wait conn (t + 1) ?h"
    using t now by (subst send_command_wait.simps) (simp add: furi_hal_usb_is_connected_def)
  have p: "polls ?h = polls h + 1" and c: "calls ?h = calls h @ [DelayMs 10]"
    by (simp_all add: furi_delay_ms_def)
  have "send_command_wait conn (t + 1) ?h =
          ?h\<lparr>calls := calls ?h @ replicate d (DelayMs 10), polls := polls ?h + d + 1\<rparr>"
  proof (rule Suc.IH)
    from Suc.prems(1) show "d \<le> 500 - unat (t + 1)"
      by (simp add: u)
    show "\<forall>j<d. \<not> conn (polls ?h + j)"
    proof (intro allI impI)
      fix j assume "j < d"
      then have "\<not> conn (polls h + Suc j)"
        using Suc.prems(2) [rule_format, of "Suc j"] by simp
      then show "\<not> conn (polls ?h + j)"
        by (simp add: furi_delay_ms_def)
    qed
    from Suc.prems(3) show "d < 500 - unat (t + 1) \<longrightarrow> conn (polls ?h + d)"
      by (simp add: furi_delay_ms_def u)
  qed
  then show ?case
    by (simp add: step furi_delay_ms_def replicate_app_Cons_same)
qed

lemma send_command_timeout:
  assumes "\<forall>j\<le>501. \<not> conn (polls h + j)"
  shows "send_command conn text h =
           h\<lparr>usb_config := usb_hid,
             calls := calls h @ UsbSetConfig usb_hid # replicate 500 (DelayMs 10),
             polls := polls h + 502\<rparr>"
proof -
  let ?h = "furi_hal_usb_set_config usb_hid h"
  have "send_command_wait conn 0 ?h =
          ?h\<lparr>calls := calls ?h @ replicate 500 (DelayMs 10), polls := polls ?h + 500 + 1\<rparr>"
    using assms by (intro wait_loop) (simp_all add: furi_hal_usb_set_config_def)
  moreover have "\<not> conn (501 + polls h)"
    using assms [rule_format, of 501] by (simp add: add.commute)
  ultimately show ?thesis
    by (simp add: send_command_def Let_def furi_hal_usb_is_connected_def)
      (simp add: furi_hal_usb_set_config_def)
qed

lemma send_command_connected:
  assumes "k \<le> 500" and "\<forall>j<k. \<not> conn (polls h + j)" and "\<forall>j\<ge>k. conn (polls h + j)"
  shows "send_command conn text h =
           h\<lparr>usb_config := usb_hid,
             calls := calls h @ UsbSetConfig usb_hid # replicate k (DelayMs 10) @
                      DelayMs 500 # typed_calls text @ [UsbSetConfig usb_hid],
             polls := polls h + k + 2\<rparr>"
proof -
  let ?h = "furi_hal_usb_set_config usb_hid h"
  have "send_command_wait conn 0 ?h =
          ?h\<lparr>calls := calls ?h @ replicate k (DelayMs 10), polls := polls ?h + k + 1\<rparr>"
    using assms by (intro wait_loop) (simp_all add: furi_hal_usb_set_config_def)
  moreover from assms have "conn (Suc (polls h + k))"
    by (metis add_Suc_right le_Suc_eq order_refl)
  ultimately show ?thesis
    by (simp add: send_command_def Let_def furi_hal_usb_is_connected_def send_command_type_calls)
      (simp add: furi_hal_usb_set_config_def furi_delay_ms_def)
qed

lemma unmapped_dropped: "\<not> mapped_char c \<Longrightarrow> send_char c h = h"
proof -
  assume u: "\<not> mapped_char c"
  have "\<not> (CHR ''1'' \<le> c \<and> c \<le> CHR ''9'')"
  proof
    assume d: "CHR ''1'' \<le> c \<and> c \<le> CHR ''9''"
    have "CHR ''0'' \<le> CHR ''1''"
      by simp
    with d have "CHR ''0'' \<le> c"
      by (blast intro: order_trans)
    with d u show False
      by (simp add: mapped_char_def)
  qed
  with u show ?thesis
    by (auto simp add: mapped_char_def send_char_def)
qed

lemma typed_calls_scenario:
  \<open>typed_calls ''Ab1 -"\<newline>'' =
     [KbPress HID_KEYBOARD_LEFT_SHIFT, KbPress HID_KEYBOARD_A, DelayMs 20,
        KbRelease HID_KEYBOARD_A, KbRelease HID_KEYBOARD_LEFT_SHIFT, DelayMs 10,
      KbPress HID_KEYBOARD_B, DelayMs 20, KbRelease HID_KEYBOARD_B, DelayMs 10,
      KbPress HID_KEYBOARD_1, DelayMs 20, KbRelease HID_KEYBOARD_1, DelayMs 10,
      KbPress HID_KEYBOARD_SPACEBAR, DelayMs 20, KbRelease HID_KEYBOARD_SPACEBAR, DelayMs 10,
      KbPress HID_KEYBOARD_MINUS, DelayMs 20, KbRelease HID_KEYBOARD_MINUS, DelayMs 10,
      KbPress HID_KEYBOARD_LEFT_SHIFT, KbPress HID_KEYBOARD_APOSTROPHE, DelayMs 20,
        KbRelease HID_KEYBOARD_APOSTROPHE, KbRelease HID_KEYBOARD_LEFT_SHIFT, DelayMs 10,
      KbPress HID_KEYBOARD_RETURN, DelayMs 20, KbRelease HID_KEYBOARD_RETURN, DelayMs 10,
      DelayMs 100]\<close>
  by (simp add: typed_calls_def strlen_def char_calls_def send_char_def send_key_def hal_defs
      key_defs no_calls_def)

text \<open>
  Claim C2. For the text \<^verbatim>\<open>Ab1 -"\n\<close> the typing loop adds to the call log, in this order:
  the A key with left shift held, the B key, the 1 key, the spacebar, the minus key, the
  apostrophe key with left shift held, and the return key. Every keystroke is a press, a
  delay of 20 ms, a release and a delay of 10 ms (the shift press before and the shift
  release after the key's own); the return key is followed by one more delay of 100 ms.
  The B key is the key next to A in the numbering. A character outside the mapped set
  (lower case, upper case, digits, space, newline, hyphen, double quote) leaves the
  device as it was: \<^verbatim>\<open>send_char\<close> makes no call at all.
\<close>

theorem emitter_scenario_and_unmapped:
  \<open>calls (send_command_type ''Ab1 -"\<newline>'' 0 h) = calls h @
     [KbPress HID_KEYBOARD_LEFT_SHIFT, KbPress HID_KEYBOARD_A, DelayMs 20,
        KbRelease HID_KEYBOARD_A, KbRelease HID_KEYBOARD_LEFT_SHIFT, DelayMs 10,
      KbPress HID_KEYBOARD_B, DelayMs 20, KbRelease HID_KEYBOARD_B, DelayMs 10,
      KbPress HID_KEYBOARD_1, DelayMs 20, KbRelease HID_KEYBOARD_1, DelayMs 10,
      KbPress HID_KEYBOARD_SPACEBAR, DelayMs 20, KbRelease HID_KEYBOARD_SPACEBAR, DelayMs 10,
      KbPress HID_KEYBOARD_MINUS, DelayMs 20, KbRelease HID_KEYBOARD_MINUS, DelayMs 10,
      KbPress HID_KEYBOARD_LEFT_SHIFT, KbPress HID_KEYBOARD_APOSTROPHE, DelayMs 20,
        KbRelease HID_KEYBOARD_APOSTROPHE, KbRelease HID_KEYBOARD_LEFT_SHIFT, DelayMs 10,
      KbPress HID_KEYBOARD_RETURN, DelayMs 20, KbRelease HID_KEYBOARD_RETURN, DelayMs 10,
      DelayMs 100]
   \<and> HID_KEYBOARD_A + 1 = HID_KEYBOARD_B
   \<and> (\<not> mapped_char c \<longrightarrow> send_char c h' = h')\<close>
  by (simp add: send_command_type_calls typed_calls_scenario unmapped_dropped)
    (simp add: key_defs)

text \<open>The character \<^verbatim>\<open>#\<close> is outside the mapped set and is dropped.\<close>

theorem emitter_scenario_and_unmapped_witness:
  "\<not> mapped_char (CHR ''#'') \<and> send_char (CHR ''#'') no_calls = no_calls"
  using emitter_scenario_and_unmapped [of no_calls "CHR ''#''" no_calls]
  by (simp add: mapped_char_def)

lemma filter_replicate_delay: "filter is_key_call (replicate n (DelayMs d)) = []"
  by (induction n) simp_all

lemma elapsed_replicate: "elapsed_ms (replicate n (DelayMs d)) = n * d"
  by (induction n) (simp_all add: elapsed_ms_def)

lemma elapsed_nil: "elapsed_ms [] = 0"
  by (simp add: elapsed_ms_def)

lemma elapsed_append: "elapsed_ms (xs @ ys) = elapsed_ms xs + elapsed_ms ys"
  by (simp add: elapsed_ms_def)

text \<open>
  Claim C3. If the host never answers connected, \<^verbatim>\<open>send_command\<close> makes, after
  selecting the HID interface, exactly 500 waits of 10 ms and nothing else: no key call is
  added to the log, the waits add up to 5000 ms, and the device is left on the HID
  interface. (The loop condition asks the host 501 times and the check after the loop
  once more.) If the host answers connected from the \<open>k\<close>-th question on,
  \<open>k \<le> 500\<close>, there are \<open>k\<close> waits of 10 ms, then the settle delay of 500 ms, and only
  then the calls of the typing loop.
\<close>

theorem send_command_timeout_and_settle:
  "((\<forall>n. \<not> conn n) \<longrightarrow>
      calls (send_command conn text h) =
        calls h @ UsbSetConfig usb_hid # replicate 500 (DelayMs 10)
      \<and> filter is_key_call (calls (send_command conn text h)) = filter is_key_call (calls h)
      \<and> elapsed_ms (calls (send_command conn text h)) = elapsed_ms (calls h) + 5000
      \<and> usb_config (send_command conn text h) = usb_hid
      \<and> polls (send_command conn text h) = polls h + 502)
   \<and> (k \<le> 500 \<and> (\<forall>j<k. \<not> conn' (polls h + j)) \<and> (\<forall>j\<ge>k. conn' (polls h + j)) \<longrightarrow>
      calls (send_command conn' text h) =
        calls h @ UsbSetConfig usb_hid # replicate k (DelayMs 10) @
        DelayMs 500 # typed_calls text @ [UsbSetConfig usb_hid])"
proof (intro conjI impI)
  assume never: "\<forall>n. \<not> conn n"
  then have "\<forall>j\<le>501. \<not> conn (polls h + j)"
    by simp
  then have r: "send_command conn text h =
      h\<lparr>usb_config := usb_hid,
        calls := calls h @ UsbSetConfig usb_hid # replicate 500 (DelayMs 10),
        polls := polls h + 502\<rparr>"
    by (rule send_command_timeout)
  show "calls (send_command conn text h) =
      calls h @ UsbSetConfig usb_hid # replicate 500 (DelayMs 10)"
    by (simp add: r)
  show "filter is_key_call (calls (send_command conn text h)) = filter is_key_call (calls h)"
    by (simp add: r filter_replicate_delay)
  show "elapsed_ms (calls (send_command conn text h)) = elapsed_ms (calls h) + 5000"
    using elapsed_replicate [of 500 10]
    by (simp add: r elapsed_append) (simp add: elapsed_ms_def)
  show "usb_config (send_command conn text h) = usb_hid"
    by (simp add: r)
  show "polls (send_command conn text h) = polls h + 502"
    by (simp add: r)
next
  assume "k \<le> 500 \<and> (\<forall>j<k. \<not> conn' (polls h + j)) \<and> (\<forall>j\<ge>k. conn' (polls h + j))"
  then show "calls (send_command conn' text h) =
      calls h @ UsbSetConfig usb_hid # replicate k (DelayMs 10) @
      DelayMs 500 # typed_calls text @ [UsbSetConfig usb_hid]"
    by (simp add: send_command_connected [of k conn' h])
qed

lemma typed_calls_a:
  "typed_calls ''a'' = [KbPress HID_KEYBOARD_A, DelayMs 20, KbRelease HID_KEYBOARD_A, DelayMs 10]"
  by (simp add: typed_calls_def strlen_def char_calls_def send_char_def send_key_def hal_defs
      no_calls_def)

text \<open>A host that never connects, and one that connects at the third question.\<close>

theorem send_command_timeout_and_settle_witness:
  "calls (send_command (\<lambda>n. False) ''a'' no_calls) =
       UsbSetConfig usb_hid # replicate 500 (DelayMs 10)
   \<and> elapsed_ms (calls (send_command (\<lambda>n. False) ''a'' no_calls)) = 5000
   \<and> (2::nat) \<le> 500
   \<and> calls (send_command (\<lambda>n. 2 \<le> n) ''a'' no_calls) =
       [UsbSetConfig usb_hid, DelayMs 10, DelayMs 10, DelayMs 500,
        KbPress HID_KEYBOARD_A, DelayMs 20, KbRelease HID_KEYBOARD_A, DelayMs 10,
        UsbSetConfig usb_hid]"
proof -
  note t = send_command_timeout_and_settle [of "\<lambda>n. False" "''a''" no_calls 2 "\<lambda>n. 2 \<le> n"]
  have never: "\<forall>n. \<not> (\<lambda>n. False) n"
    by simp
  have later: "(2::nat) \<le> 500 \<and> (\<forall>j<2. \<not> (\<lambda>n. 2 \<le> n) (polls no_calls + j))
      \<and> (\<forall>j\<ge>2. (\<lambda>n. 2 \<le> n) (polls no_calls + j))"
    by (simp add: no_calls_def)
  have empty: "calls no_calls = []"
    by (simp add: no_calls_def)
  from t [THEN conjunct1, THEN mp, OF never]
  have "calls (send_command (\<lambda>n. False) ''a'' no_calls) =
      calls no_calls @ UsbSetConfig usb_hid # replicate 500 (DelayMs 10)"
    and "elapsed_ms (calls (send_command (\<lambda>n. False) ''a'' no_calls)) =
      elapsed_ms (calls no_calls) + 5000"
    by blast+
  then have "calls (send_command (\<lambda>n. False) ''a'' no_calls) =
      UsbSetConfig usb_hid # replicate 500 (DelayMs 10)"
    and "elapsed_ms (calls (send_command (\<lambda>n. False) ''a'' no_calls)) = 5000"
    by (simp_all only: empty elapsed_nil append_Nil add_0)
  moreover from t [THEN conjunct2, THEN mp, OF later]
  have "calls (send_command (\<lambda>n. 2 \<le> n) ''a'' no_calls) =
      [UsbSetConfig usb_hid, DelayMs 10, DelayMs 10, DelayMs 500,
       KbPress HID_KEYBOARD_A, DelayMs 20, KbRelease HID_KEYBOARD_A, DelayMs 10,
       UsbSetConfig usb_hid]"
    by (simp add: empty typed_calls_a numeral_2_eq_2)
  ultimately show ?thesis
    by simp
qed

text \<open>
  Claim C1 asks that the last USB configuration call of \<^verbatim>\<open>send_command\<close> puts back the
  interface that was configured before the call, after a full send and after a timeout.
  On a device that was on the serial interface, with the first command of the table:
  with a connected host the last call selects \<^verbatim>\<open>usb_hid\<close> again (line 304, under the
  comment \<^verbatim>\<open>Disable USB HID\<close>) and the device stays on the HID interface; with a host
  that never connects the function returns at line 292 after the waits, the only
  configuration call being the one that selected \<^verbatim>\<open>usb_hid\<close>.
\<close>

theorem send_command_never_restores_usb:
  "usb_config (send_command (\<lambda>n. True) ''celestecli --tarot\<newline>''
       \<lparr>usb_config = usb_cdc_single, calls = [], polls = 0\<rparr>) = usb_hid
   \<and> calls (send_command (\<lambda>n. True) ''celestecli --tarot\<newline>''
       \<lparr>usb_config = usb_cdc_single, calls = [], polls = 0\<rparr>) =
       UsbSetConfig usb_hid # DelayMs 500 # typed_calls ''celestecli --tarot\<newline>'' @
       [UsbSetConfig usb_hid]
   \<and> usb_config (send_command (\<lambda>n. False) ''celestecli --tarot\<newline>''
       \<lparr>usb_config = usb_cdc_single, calls = [], polls = 0\<rparr>) = usb_hid
   \<and> calls (send_command (\<lambda>n. False) ''celestecli --tarot\<newline>''
       \<lparr>usb_config = usb_cdc_single, calls = [], polls = 0\<rparr>) =
       UsbSetConfig usb_hid # replicate 500 (DelayMs 10)"
  by (simp add: send_command_timeout send_command_connected [of 0])

section \<open>The menu state machine keeps its cursor and its staged command valid\<close>

lemma count_commands:
  "count_menu_items commands cat = Some (of_nat (length (category_positions commands cat)))"
  by (rule count_menu_items_wf [OF wf_catalog_commands])

lemma count_commands_cases:
  "count_menu_items commands MenuCategoryMain = Some 0"
  "count_menu_items commands MenuCategoryTarot = Some 5"
  "count_menu_items commands MenuCategoryContent = Some 4"
  "count_menu_items commands MenuCategoryNSFW = Some 3"
  by (simp_all add: count_commands positions_commands)

lemma get_commands:
  "get_menu_item commands cat index =
     Some (if unat index < length (category_positions commands cat)
           then Cmd (category_positions commands cat ! unat index) else NULL)"
  by (rule get_menu_item_wf [OF wf_catalog_commands])

lemma positions_bound:
  "k < length (category_positions commands cat) \<Longrightarrow> category_positions commands cat ! k < 12"
proof -
  assume "k < length (category_positions commands cat)"
  then have "category_positions commands cat ! k \<in> set (category_positions commands cat)"
    by (rule nth_mem)
  then show ?thesis
    by (simp add: category_positions_def entries_commands)
qed

lemma unat_dec: "0 < s \<Longrightarrow> unat (s - 1) = unat s - 1" for s :: "8 word"
  by (simp add: unat_minus_one word_greater_zero_iff)

lemma unat_inc: "unat s < n \<Longrightarrow> n \<le> 255 \<Longrightarrow> unat (s + 1) = unat s + 1" for s :: "8 word"
  by (simp add: unat_word_ariths)

lemma inv_init: "app_inv (celeste_cli_app_init garbage)"
  by (simp add: app_inv_def celeste_cli_app_init_def)

lemma inv_loop: "app_inv app \<Longrightarrow> app_inv (main_loop_body app)"
  by (cases "state app") (simp_all add: app_inv_def main_loop_body_def Let_def)

lemma inv_sending:
  "app_inv app \<Longrightarrow> state app = AppStateConfirm \<Longrightarrow> app_inv (app\<lparr>state := AppStateExecuting\<rparr>)"
  by (simp add: app_inv_def)

lemma length_commands: "length commands = 13"
  by (simp add: commands_def)

lemma commands_have_text: "j < 12 \<Longrightarrow> \<exists>t. command (commands ! j) = Some t"
proof -
  assume j: "j < 12"
  have all: "\<forall>e \<in> set (take 12 commands). command e \<noteq> None"
    by (simp add: commands_def)
  from j have "take 12 commands ! j \<in> set (take 12 commands)"
    by (intro nth_mem) (simp add: length_commands)
  with all have "command (take 12 commands ! j) \<noteq> None"
    by blast
  with j show ?thesis
    by simp
qed



lemma positions_lengths:
  "length (category_positions commands MenuCategoryMain) = 0"
  "length (category_positions commands MenuCategoryTarot) = 5"
  "length (category_positions commands MenuCategoryContent) = 4"
  "length (category_positions commands MenuCategoryNSFW) = 3"
  by (simp_all add: positions_commands)

lemma uint_less_numeral: "uint s < numeral n \<longleftrightarrow> unat s < numeral n" for s :: "8 word"
  by (simp only: uint_nat of_nat_less_numeral_iff)

lemma input_not_press:
  "type ev \<noteq> InputTypePress \<Longrightarrow> input_callback cmds conn ev (app, h) = Some (app, h)"
  by (simp add: input_callback_def)

lemma input_up:
  assumes "app_inv app" and "type ev = InputTypePress" and "key ev = InputKeyUp"
  shows "\<exists>app' h'. input_callback commands conn ev (app, h) = Some (app', h') \<and> app_inv app'"
  using assms
  by (cases "state app")
    (simp_all add: input_callback_def in_submenu_def count_commands app_inv_def unat_dec
      less_imp_diff_less)

lemma input_down:
  assumes "app_inv app" and "type ev = InputTypePress" and "key ev = InputKeyDown"
  shows "\<exists>app' h'. input_callback commands conn ev (app, h) = Some (app', h') \<and> app_inv app'"
  using assms
  by (cases "state app")
    (simp_all add: input_callback_def in_submenu_def count_commands_cases app_inv_def
      word_less_nat_alt uint_less_numeral unat_inc [where n = 4])

lemma input_ok:
  assumes "app_inv app" and "type ev = InputTypePress" and "key ev = InputKeyOk"
  shows "\<exists>app' h'. input_callback commands conn ev (app, h) = Some (app', h') \<and> app_inv app'"
proof (cases "state app")
  case AppStateConfirm
  with assms obtain j where j: "j < 12" "current_command app = Cmd j"
    by (auto simp add: app_inv_def)
  from commands_have_text [OF j(1)] obtain t where "command (commands ! j) = Some t" ..
  with AppStateConfirm assms j show ?thesis
    by (simp add: input_callback_def in_submenu_def app_inv_def length_commands Let_def)
next
  case AppStateTarotMenu
  with assms show ?thesis
    by (simp add: input_callback_def in_submenu_def app_inv_def get_commands positions_lengths
        positions_bound)
next
  case AppStateContentMenu
  with assms show ?thesis
    by (simp add: input_callback_def in_submenu_def app_inv_def get_commands positions_lengths
        positions_bound)
next
  case AppStateNSFWMenu
  with assms show ?thesis
    by (simp add: input_callback_def in_submenu_def app_inv_def get_commands positions_lengths
        positions_bound)
qed (use assms in \<open>simp_all add: input_callback_def in_submenu_def app_inv_def positions_lengths\<close>)

lemma input_back:
  assumes "app_inv app" and "type ev = InputTypePress" and "key ev = InputKeyBack"
  shows "\<exists>app' h'. input_callback commands conn ev (app, h) = Some (app', h') \<and> app_inv app'"
proof (cases "state app")
  case AppStateConfirm
  with assms show ?thesis
    by (cases "current_category app")
      (simp_all add: input_callback_def in_submenu_def app_inv_def positions_lengths Let_def)
qed (use assms in \<open>simp_all add: input_callback_def in_submenu_def app_inv_def\<close>)

lemma input_callback_inv:
  assumes "app_inv app"
  shows "\<exists>app' h'. input_callback commands conn ev (app, h) = Some (app', h') \<and> app_inv app'"
proof (cases "type ev = InputTypePress")
  case False
  with assms show ?thesis
    by (simp add: input_not_press)
next
  case True
  show ?thesis
  proof (cases "key ev")
    case InputKeyUp
    with assms True show ?thesis by (intro input_up)
  next
    case InputKeyDown
    with assms True show ?thesis by (intro input_down)
  next
    case InputKeyOk
    with assms True show ?thesis by (intro input_ok)
  next
    case InputKeyBack
    with assms True show ?thesis by (intro input_back)
  next
    case InputKeyRight
    with assms True show ?thesis by (simp add: input_callback_def)
  next
    case InputKeyLeft
    with assms True show ?thesis by (simp add: input_callback_def)
  qed
qed

lemma reachable_inv: "reachable app \<Longrightarrow> app_inv app"
proof (induction rule: reachable.induct)
  case (start garbage)
  show ?case by (rule inv_init)
next
  case (loop app)
  then show ?case by (simp add: inv_loop)
next
  case (input app conn input_event h app' h')
  from input_callback_inv [OF input.IH, of conn input_event h] input.hyps(2)
  show ?case by auto
next
  case (sending app)
  then show ?case by (simp add: inv_sending)
qed


lemma inv_in_range:
  assumes "app_inv app" and "item_count_of app = Some n"
  shows "selected_item app < n"
proof (cases "state app")
  case AppStateConfirm
  with assms show ?thesis
    by (cases "current_category app")
      (auto simp add: app_inv_def item_count_of_def in_submenu_def count_commands_cases
        positions_lengths word_less_nat_alt)
qed (use assms in \<open>auto simp add: app_inv_def item_count_of_def in_submenu_def
      count_commands_cases word_less_nat_alt\<close>)

lemma up_at_top:
  assumes "type ev = InputTypePress" and "key ev = InputKeyUp" and "selected_item app = 0"
    and "input_callback commands conn ev (app, h) = Some (app', h')"
  shows "app' = app"
  using assms
  by (cases "state app")
    (auto simp add: input_callback_def in_submenu_def count_commands)

lemma no_step_at_last: "\<not> uint (n - 1) < uint n - 1" for n :: "8 word"
proof (cases "n = 0")
  case True
  then have "uint n - 1 < 0"
    by simp
  moreover have "0 \<le> uint (n - 1)"
    by simp
  ultimately show ?thesis
    by linarith
next
  case False
  then have "unat (n - 1) = unat n - 1"
    by (rule unat_minus_one)
  moreover from False have "0 < unat n"
    by (simp add: unat_gt_0)
  ultimately have "int (unat (n - 1)) = int (unat n) - 1"
    by simp
  then show ?thesis
    unfolding uint_nat by simp
qed

lemma down_at_bottom:
  assumes "type ev = InputTypePress" and "key ev = InputKeyDown"
    and "item_count_of app = Some n" and "selected_item app = n - 1"
    and "input_callback commands conn ev (app, h) = Some (app', h')"
  shows "app' = app"
  using assms
  by (cases "state app")
    (auto simp add: input_callback_def in_submenu_def item_count_of_def no_step_at_last)

text \<open>
  Claim C5. From every state the program can be in, \<^verbatim>\<open>input_callback\<close> returns on every
  input event, and in the state it leaves the cursor is below the number of rows of the
  list behind the screen (4 on the main menu, the entries of the current category on a
  submenu). A press of Up with the cursor at 0 changes nothing, and a press of Down with
  the cursor on the last row changes nothing, on the main menu and on every submenu.
\<close>

theorem selected_item_stays_in_range:
  assumes "reachable app"
  shows "\<exists>app' h'. input_callback commands conn ev (app, h) = Some (app', h')
           \<and> (\<forall>n. item_count_of app' = Some n \<longrightarrow> selected_item app' < n)
           \<and> (type ev = InputTypePress \<and> key ev = InputKeyUp \<and> selected_item app = 0
                \<longrightarrow> app' = app)
           \<and> (type ev = InputTypePress \<and> key ev = InputKeyDown
                \<and> (\<exists>n. item_count_of app = Some n \<and> selected_item app = n - 1)
                \<longrightarrow> app' = app)"
proof -
  from assms have "app_inv app"
    by (rule reachable_inv)
  from input_callback_inv [OF this, of conn ev h]
  obtain app' h' where r: "input_callback commands conn ev (app, h) = Some (app', h')"
    and i: "app_inv app'"
    by blast
  from i have "\<forall>n. item_count_of app' = Some n \<longrightarrow> selected_item app' < n"
    by (blast intro: inv_in_range)
  moreover from r
  have "type ev = InputTypePress \<and> key ev = InputKeyUp \<and> selected_item app = 0 \<longrightarrow> app' = app"
    by (blast intro: up_at_top)
  moreover from r
  have "type ev = InputTypePress \<and> key ev = InputKeyDown
      \<and> (\<exists>n. item_count_of app = Some n \<and> selected_item app = n - 1) \<longrightarrow> app' = app"
    by (blast intro: down_at_bottom)
  ultimately show ?thesis
    using r by blast
qed

lemmas eval_defs = input_callback_def at_screen_def press_def celeste_cli_app_init_def
  in_submenu_def

lemma reach_main_0: "reachable (at_screen AppStateMainMenu 0 MenuCategoryMain NULL)"
proof -
  have "input_callback commands (\<lambda>n. False) (press InputKeyOk) (celeste_cli_app_init 0, no_calls) =
      Some (at_screen AppStateMainMenu 0 MenuCategoryMain NULL, no_calls)"
    by (simp add: eval_defs)
  with reachable.start show ?thesis
    by (rule reachable.input)
qed

lemma reach_main_1: "reachable (at_screen AppStateMainMenu 1 MenuCategoryMain NULL)"
proof -
  have "input_callback commands (\<lambda>n. False) (press InputKeyDown)
      (at_screen AppStateMainMenu 0 MenuCategoryMain NULL, no_calls) =
      Some (at_screen AppStateMainMenu 1 MenuCategoryMain NULL, no_calls)"
    by (simp add: eval_defs)
  with reach_main_0 show ?thesis
    by (rule reachable.input)
qed

lemma reach_main_2: "reachable (at_screen AppStateMainMenu 2 MenuCategoryMain NULL)"
proof -
  have "input_callback commands (\<lambda>n. False) (press InputKeyDown)
      (at_screen AppStateMainMenu 1 MenuCategoryMain NULL, no_calls) =
      Some (at_screen AppStateMainMenu 2 MenuCategoryMain NULL, no_calls)"
    by (simp add: eval_defs)
  with reach_main_1 show ?thesis
    by (rule reachable.input)
qed

lemma reach_main_3: "reachable (at_screen AppStateMainMenu 3 MenuCategoryMain NULL)"
proof -
  have "input_callback commands (\<lambda>n. False) (press InputKeyDown)
      (at_screen AppStateMainMenu 2 MenuCategoryMain NULL, no_calls) =
      Some (at_screen AppStateMainMenu 3 MenuCategoryMain NULL, no_calls)"
    by (simp add: eval_defs)
  with reach_main_2 show ?thesis
    by (rule reachable.input)
qed

lemma reach_content_0: "reachable (at_screen AppStateContentMenu 0 MenuCategoryContent NULL)"
proof -
  have "input_callback commands (\<lambda>n. False) (press InputKeyOk)
      (at_screen AppStateMainMenu 1 MenuCategoryMain NULL, no_calls) =
      Some (at_screen AppStateContentMenu 0 MenuCategoryContent NULL, no_calls)"
    by (simp add: eval_defs)
  with reach_main_1 show ?thesis
    by (rule reachable.input)
qed

lemma reach_content_1: "reachable (at_screen AppStateContentMenu 1 MenuCategoryContent NULL)"
proof -
  have "input_callback commands (\<lambda>n. False) (press InputKeyDown)
      (at_screen AppStateContentMenu 0 MenuCategoryContent NULL, no_calls) =
      Some (at_screen AppStateContentMenu 1 MenuCategoryContent NULL, no_calls)"
    by (simp add: eval_defs count_commands_cases)
  with reach_content_0 show ?thesis
    by (rule reachable.input)
qed

lemma reach_confirm: "reachable (at_screen AppStateConfirm 1 MenuCategoryContent (Cmd 6))"
proof -
  have "input_callback commands (\<lambda>n. False) (press InputKeyOk)
      (at_screen AppStateContentMenu 1 MenuCategoryContent NULL, no_calls) =
      Some (at_screen AppStateConfirm 1 MenuCategoryContent (Cmd 6), no_calls)"
    by (simp add: eval_defs get_commands positions_commands)
  with reach_content_1 show ?thesis
    by (rule reachable.input)
qed

text \<open>
  The main menu with the cursor on its last row, reached by Ok on the splash screen and
  three presses of Down: a fourth press of Down leaves it there.
\<close>

theorem selected_item_stays_in_range_witness:
  "reachable (at_screen AppStateMainMenu 3 MenuCategoryMain NULL)
   \<and> input_callback commands (\<lambda>n. False) (press InputKeyDown)
        (at_screen AppStateMainMenu 3 MenuCategoryMain NULL, no_calls) =
      Some (at_screen AppStateMainMenu 3 MenuCategoryMain NULL, no_calls)
   \<and> item_count_of (at_screen AppStateMainMenu 3 MenuCategoryMain NULL) = Some 4
   \<and> selected_item (at_screen AppStateMainMenu 3 MenuCategoryMain NULL) = 4 - 1
   \<and> selected_item (at_screen AppStateMainMenu 3 MenuCategoryMain NULL) < 4"
proof -
  let ?app = "at_screen AppStateMainMenu 3 MenuCategoryMain NULL"
  from selected_item_stays_in_range [OF reach_main_3, of "\<lambda>n. False" "press InputKeyDown" no_calls]
  obtain app' h' where r: "input_callback commands (\<lambda>n. False) (press InputKeyDown) (?app, no_calls) =
      Some (app', h')"
    and range: "\<forall>n. item_count_of app' = Some n \<longrightarrow> selected_item app' < n"
    and last: "type (press InputKeyDown) = InputTypePress \<and> key (press InputKeyDown) = InputKeyDown
      \<and> (\<exists>n. item_count_of ?app = Some n \<and> selected_item ?app = n - 1) \<longrightarrow> app' = ?app"
    by blast
  have c: "item_count_of ?app = Some 4" and s: "selected_item ?app = 4 - 1"
    by (simp_all add: item_count_of_def at_screen_def)
  with last have same: "app' = ?app"
    by (simp add: press_def)
  from r have "h' = no_calls"
    by (simp add: eval_defs)
  with r same range c s reach_main_3 show ?thesis
    by simp
qed


text \<open>
  Claim C6. On the main menu a press of Ok with the cursor at 0, 1 or 2 enters the Tarot,
  Content or NSFW submenu: the state and the current category are set accordingly and the
  cursor is reset to 0, nothing else changes. With the cursor at 3 (Settings) the press
  leaves the application state and the device as they were.
\<close>

theorem main_menu_confirm:
  assumes "state app = AppStateMainMenu"
  shows "(selected_item app = 0 \<longrightarrow>
            input_callback cmds conn (press InputKeyOk) (app, h) =
              Some (app\<lparr>state := AppStateTarotMenu, current_category := MenuCategoryTarot,
                         selected_item := 0\<rparr>, h))
       \<and> (selected_item app = 1 \<longrightarrow>
            input_callback cmds conn (press InputKeyOk) (app, h) =
              Some (app\<lparr>state := AppStateContentMenu, current_category := MenuCategoryContent,
                         selected_item := 0\<rparr>, h))
       \<and> (selected_item app = 2 \<longrightarrow>
            input_callback cmds conn (press InputKeyOk) (app, h) =
              Some (app\<lparr>state := AppStateNSFWMenu, current_category := MenuCategoryNSFW,
                         selected_item := 0\<rparr>, h))
       \<and> (selected_item app = 3 \<longrightarrow>
            input_callback cmds conn (press InputKeyOk) (app, h) = Some (app, h))"
  using assms by (simp add: input_callback_def press_def)

text \<open>Ok on the main menu with the cursor at 2 and at 3.\<close>

theorem main_menu_confirm_witness:
  "state (at_screen AppStateMainMenu 2 MenuCategoryMain NULL) = AppStateMainMenu
   \<and> selected_item (at_screen AppStateMainMenu 2 MenuCategoryMain NULL) = 2
   \<and> input_callback commands (\<lambda>n. False) (press InputKeyOk)
        (at_screen AppStateMainMenu 2 MenuCategoryMain NULL, no_calls) =
      Some (at_screen AppStateNSFWMenu 0 MenuCategoryNSFW NULL, no_calls)
   \<and> selected_item (at_screen AppStateMainMenu 3 MenuCategoryTarot NULL) = 3
   \<and> input_callback commands (\<lambda>n. False) (press InputKeyOk)
        (at_screen AppStateMainMenu 3 MenuCategoryTarot NULL, no_calls) =
      Some (at_screen AppStateMainMenu 3 MenuCategoryTarot NULL, no_calls)"
  using main_menu_confirm [of "at_screen AppStateMainMenu 2 MenuCategoryMain NULL" commands
      "\<lambda>n. False" no_calls]
    main_menu_confirm [of "at_screen AppStateMainMenu 3 MenuCategoryTarot NULL" commands
      "\<lambda>n. False" no_calls]
  by (simp add: at_screen_def celeste_cli_app_init_def)

text \<open>
  Claim C8. From the main menu with the cursor at 0, 1 or 2, a press of Ok enters a
  submenu, and a press of Back there returns to the main menu with the cursor at 0,
  whatever the cursor was before the submenu was entered.
\<close>

theorem submenu_back_resets_cursor:
  assumes "state app = AppStateMainMenu" and "selected_item app \<in> {0, 1, 2}"
  shows "\<exists>sub. input_callback cmds conn (press InputKeyOk) (app, h) = Some (sub, h)
           \<and> in_submenu sub
           \<and> input_callback cmds conn (press InputKeyBack) (sub, h) =
               Some (sub\<lparr>state := AppStateMainMenu, selected_item := 0\<rparr>, h)"
  using assms by (auto simp add: input_callback_def press_def in_submenu_def)

text \<open>Into the NSFW submenu from cursor 2 and back: the cursor is 0, not 2.\<close>

theorem submenu_back_resets_cursor_witness:
  "state (at_screen AppStateMainMenu 2 MenuCategoryMain NULL) = AppStateMainMenu
   \<and> selected_item (at_screen AppStateMainMenu 2 MenuCategoryMain NULL) = 2
   \<and> input_callback commands (\<lambda>n. False) (press InputKeyOk)
        (at_screen AppStateMainMenu 2 MenuCategoryMain NULL, no_calls) =
      Some (at_screen AppStateNSFWMenu 0 MenuCategoryNSFW NULL, no_calls)
   \<and> input_callback commands (\<lambda>n. False) (press InputKeyBack)
        (at_screen AppStateNSFWMenu 0 MenuCategoryNSFW NULL, no_calls) =
      Some (at_screen AppStateMainMenu 0 MenuCategoryNSFW NULL, no_calls)"
  using submenu_back_resets_cursor [of "at_screen AppStateMainMenu 2 MenuCategoryMain NULL"
      commands "\<lambda>n. False" no_calls]
  by (simp add: eval_defs)

text \<open>
  Claim C9. In every state the program can be in, on the confirmation screen and on the
  executing screen the staged command is the address of an entry of the table before its
  end marker: it is not \<^verbatim>\<open>NULL\<close>, and the entry has a name and a command text.
\<close>

theorem staged_command_is_catalog_entry:
  assumes "reachable app" and "state app = AppStateConfirm \<or> state app = AppStateExecuting"
  shows "\<exists>j. current_command app = Cmd j \<and> j < length (entries commands)
           \<and> name (commands ! j) \<noteq> None \<and> command (commands ! j) \<noteq> None"
proof -
  from assms(1) have "app_inv app"
    by (rule reachable_inv)
  with assms(2) obtain j where j: "j < 12" "current_command app = Cmd j"
    by (auto simp add: app_inv_def)
  from j(1) have "j < length (entries commands)"
    by (simp add: entries_commands)
  moreover from this have "name (commands ! j) \<noteq> None"
    by (rule entries_named)
  moreover from commands_have_text [OF j(1)] have "command (commands ! j) \<noteq> None"
    by auto
  ultimately show ?thesis
    using j(2) by blast
qed

text \<open>
  The confirmation of the second Content entry, reached from startup by input events,
  and the executing screen that follows it.
\<close>

theorem staged_command_is_catalog_entry_witness:
  "reachable (at_screen AppStateConfirm 1 MenuCategoryContent (Cmd 6))
   \<and> state (at_screen AppStateConfirm 1 MenuCategoryContent (Cmd 6)) = AppStateConfirm
   \<and> current_command (at_screen AppStateConfirm 1 MenuCategoryContent (Cmd 6)) = Cmd 6
   \<and> name (commands ! 6) = Some ''Twitter Teasing''
   \<and> reachable (at_screen AppStateExecuting 1 MenuCategoryContent (Cmd 6))
   \<and> state (at_screen AppStateExecuting 1 MenuCategoryContent (Cmd 6)) = AppStateExecuting"
proof -
  let ?c = "at_screen AppStateConfirm 1 MenuCategoryContent (Cmd 6)"
  have c: "state ?c = AppStateConfirm" and p: "current_command ?c = Cmd 6"
    by (simp_all add: at_screen_def)
  from reachable.sending [OF reach_confirm c] p
  have e: "reachable (at_screen AppStateExecuting 1 MenuCategoryContent (Cmd 6))"
    by (simp add: at_screen_def celeste_cli_app_init_def)
  have n: "name (commands ! 6) = Some ''Twitter Teasing''"
    by (simp add: commands_def)
  from staged_command_is_catalog_entry [OF reach_confirm] c
  have "\<exists>j. current_command ?c = Cmd j \<and> j < length (entries commands)
      \<and> name (commands ! j) \<noteq> None \<and> command (commands ! j) \<noteq> None"
    by simp
  with reach_confirm c p e n show ?thesis
    by (simp add: at_screen_def)
qed

text \<open>
  Claim C10. On the confirmation screen a press of Back changes the state only: it goes
  to the Tarot, Content or NSFW submenu for the current category of that name, and the
  cursor, the staged command and every other field stay as they were.
\<close>

theorem confirm_back_keeps_cursor:
  assumes "state app = AppStateConfirm"
  shows "\<exists>app'. input_callback cmds conn (press InputKeyBack) (app, h) = Some (app', h)
           \<and> app' = app\<lparr>state := state app'\<rparr>
           \<and> selected_item app' = selected_item app
           \<and> current_command app' = current_command app
           \<and> (current_category app = MenuCategoryTarot \<longrightarrow> state app' = AppStateTarotMenu)
           \<and> (current_category app = MenuCategoryContent \<longrightarrow> state app' = AppStateContentMenu)
           \<and> (current_category app = MenuCategoryNSFW \<longrightarrow> state app' = AppStateNSFWMenu)"
  using assms
  by (cases "current_category app")
    (simp_all add: input_callback_def press_def in_submenu_def Let_def)

text \<open>Back from the confirmation of the second Content entry: cursor still 1.\<close>

theorem confirm_back_keeps_cursor_witness:
  "state (at_screen AppStateConfirm 1 MenuCategoryContent (Cmd 6)) = AppStateConfirm
   \<and> current_category (at_screen AppStateConfirm 1 MenuCategoryContent (Cmd 6)) = MenuCategoryContent
   \<and> input_callback commands (\<lambda>n. False) (press InputKeyBack)
        (at_screen AppStateConfirm 1 MenuCategoryContent (Cmd 6), no_calls) =
      Some (at_screen AppStateContentMenu 1 MenuCategoryContent (Cmd 6), no_calls)"
  using confirm_back_keeps_cursor [of "at_screen AppStateConfirm 1 MenuCategoryContent (Cmd 6)"
      commands "\<lambda>n. False" no_calls]
  by (simp add: eval_defs Let_def)

section \<open>The frame of a submenu\<close>

lemma unat_visible_start:
  "unat (visible_start_of sel 4) = (if unat sel < 4 then 0 else unat sel - 3)"
proof (cases "sel < 4")
  case True
  then show ?thesis
    by (simp add: visible_start_of_def word_less_nat_alt word_le_nat_alt)
next
  case False
  then have le: "3 \<le> sel" "4 \<le> sel"
    by (simp_all add: word_le_nat_alt word_less_nat_alt)
  have "word_of_int (uint sel - uint (4 :: 8 word) + 1) = sel - 3"
    by simp
  moreover from le(1) have "unat (sel - 3) = unat sel - 3"
    by (simp add: unat_sub)
  ultimately show ?thesis
    using False le by (simp add: visible_start_of_def word_less_nat_alt)
qed

lemma positions_in_table:
  assumes "wf_catalog cmds" and "k < length (category_positions cmds cat)"
  shows "category_positions cmds cat ! k < length cmds"
proof -
  from assms(2) have "category_positions cmds cat ! k \<in> set (category_positions cmds cat)"
    by (rule nth_mem)
  then have "category_positions cmds cat ! k < length (entries cmds)"
    by (simp add: category_positions_def)
  with assms(1) show ?thesis
    by (simp add: wf_catalog_def)
qed

lemma render_rows:
  assumes wf: "wf_catalog cmds"
    and m: "m = min (unat vs + 4) (length (category_positions cmds (current_category app)))"
    and lo: "unat vs \<le> i" and hi: "i \<le> m"
  shows "render_submenu_rows cmds app
           (of_nat (length (category_positions cmds (current_category app)))) vs 4 (of_nat i)
           y canvas =
         Some (canvas @ rows_from cmds app y [i..<m])"
  using hi lo
proof (induction i arbitrary: y canvas rule: inc_induct)
  case base
  let ?L = "length (category_positions cmds (current_category app))"
  have L: "unat (of_nat ?L :: 8 word) = ?L"
    by (rule unat_count_wf [OF wf])
  then have L255: "?L < 256"
    using unsigned_less [of "of_nat ?L :: 8 word", where ?'a = nat] by simp
  from m L255 have m255: "m < 256"
    by simp
  then have um: "unat (of_nat m :: 8 word) = m"
    by (simp add: unat_of_nat)
  have im: "int m = min (uint vs + 4) (int ?L)"
    using m by (simp add: of_nat_min)
  have c1: "uint (of_nat m :: 8 word) = int m"
    by (simp only: uint_nat um)
  have stop: "\<not> ((of_nat m :: 8 word) < of_nat ?L \<and> uint (of_nat m :: 8 word) - uint vs < uint (4 :: 8 word))"
    unfolding word_less_nat_alt L um c1 using im by simp
  show ?case
    by (subst render_submenu_rows.simps, subst if_not_P [OF stop]) simp
next
  case (step i)
  let ?L = "length (category_positions cmds (current_category app))"
  let ?ps = "category_positions cmds (current_category app)"
  have L: "unat (of_nat ?L :: 8 word) = ?L"
    by (rule unat_count_wf [OF wf])
  then have L255: "?L < 256"
    using unsigned_less [of "of_nat ?L :: 8 word", where ?'a = nat] by simp
  from step.hyps m have iL: "i < ?L" and iv: "i < unat vs + 4"
    by simp_all
  from iL L255 have ui: "unat (of_nat i :: 8 word) = i"
    by (simp add: unat_of_nat)
  have s: "(of_nat i :: 8 word) + 1 = of_nat (Suc i)"
    by simp
  from iv have iv': "int i < uint vs + 4"
    by (simp flip: of_nat_less_iff [where ?'a = int])
  have c1: "uint (of_nat i :: 8 word) = int i"
    by (simp only: uint_nat ui)
  have cond: "(of_nat i :: 8 word) < of_nat ?L \<and> uint (of_nat i :: 8 word) - uint vs < uint (4 :: 8 word)"
    unfolding word_less_nat_alt L ui c1 using iL iv' by simp
  have got: "get_menu_item cmds (current_category app) (of_nat i) = Some (Cmd (?ps ! i))"
    using iL by (simp add: get_menu_item_wf [OF wf] ui)
  have inb: "\<not> length cmds \<le> ?ps ! i"
    using positions_in_table [OF wf iL] by simp
  from step.prems step.hyps have lo': "unat vs \<le> Suc i"
    by simp
  have "render_submenu_rows cmds app (of_nat ?L) vs 4 (of_nat i) y canvas =
      render_submenu_rows cmds app (of_nat ?L) vs 4 (of_nat (Suc i)) (y + 10)
        (canvas @ row_calls cmds app y i)"
    using inb
    by (subst render_submenu_rows.simps, subst if_P [OF cond])
      (simp add: got row_calls_def Let_def flip: s del: of_nat_Suc)
  also have "\<dots> = Some ((canvas @ row_calls cmds app y i) @ rows_from cmds app (y + 10) [Suc i..<m])"
    by (rule step.IH [OF lo'])
  also have "\<dots> = Some (canvas @ rows_from cmds app y [i..<m])"
    using step.hyps by (simp add: upt_conv_Cons)
  finally show ?case .
qed


lemma render_submenu_wf:
  assumes wf: "wf_catalog cmds"
  shows "render_submenu cmds app =
           Some ([CanvasClear, CanvasSetFont FontPrimary,
                  CanvasDrawStr 2 10 (headers (current_category app))] @
                 rows_from cmds app 20
                   [unat (visible_start_of (selected_item app) 4) ..<
                    min (unat (visible_start_of (selected_item app) 4) + 4)
                        (length (category_positions cmds (current_category app)))] @
                 [CanvasSetFont FontSecondary,
                  CanvasDrawStrAligned 64 62 AlignCenter AlignBottom
                    (Some ''OK=Send  Back=Menu'')])"
proof -
  let ?vs = "visible_start_of (selected_item app) 4"
  let ?L = "length (category_positions cmds (current_category app))"
  let ?top = "[CanvasClear, CanvasSetFont FontPrimary,
      CanvasDrawStr 2 10 (headers (current_category app))]"
  have rows: "render_submenu_rows cmds app (of_nat ?L) ?vs 4 ?vs 20 ?top =
      Some (?top @ rows_from cmds app 20 [unat ?vs ..< min (unat ?vs + 4) ?L])"
  proof (cases "unat ?vs \<le> ?L")
    case True
    then have "unat ?vs \<le> min (unat ?vs + 4) ?L"
      by simp
    from render_rows [OF wf refl order_refl this, of 20 ?top] show ?thesis
      by simp
  next
    case False
    have "unat (of_nat ?L :: 8 word) = ?L"
      by (rule unat_count_wf [OF wf])
    with False have stop: "\<not> (?vs < of_nat ?L \<and> uint ?vs - uint ?vs < uint (4 :: 8 word))"
      by (simp add: word_less_nat_alt)
    from False show ?thesis
      by (subst render_submenu_rows.simps, subst if_not_P [OF stop]) simp
  qed
  show ?thesis
    by (simp add: render_submenu_def count_menu_items_wf [OF wf] rows)
qed

text \<open>
  Claim C7. The first visible row of a submenu is 0 when the cursor is below 4 and the
  cursor minus 3 otherwise. On a table with its end marker in reach, the frame drawn is
  the header, the rows of the ranks from the first visible one up to four of them (fewer
  when the category ends before), each ten pixels below the one before and the cursor's
  row preceded by the marker, and the footer. In particular with ten entries in the
  category and the cursor at 7, the first visible row is 4 and the frame shows the rows
  of ranks 4, 5, 6 and 7, the last of them marked.
\<close>

theorem submenu_viewport:
  assumes "wf_catalog cmds"
  shows "unat (visible_start_of (selected_item app) 4) =
           (if unat (selected_item app) < 4 then 0 else unat (selected_item app) - 3)
       \<and> render_submenu cmds app =
           Some ([CanvasClear, CanvasSetFont FontPrimary,
                  CanvasDrawStr 2 10 (headers (current_category app))] @
                 rows_from cmds app 20
                   [unat (visible_start_of (selected_item app) 4) ..<
                    min (unat (visible_start_of (selected_item app) 4) + 4)
                        (length (category_positions cmds (current_category app)))] @
                 [CanvasSetFont FontSecondary,
                  CanvasDrawStrAligned 64 62 AlignCenter AlignBottom
                    (Some ''OK=Send  Back=Menu'')])
       \<and> (count_menu_items cmds (current_category app) = Some 10 \<and> selected_item app = 7 \<longrightarrow>
            visible_start_of (selected_item app) 4 = 4
            \<and> render_submenu cmds app =
                Some [CanvasClear, CanvasSetFont FontPrimary,
                      CanvasDrawStr 2 10 (headers (current_category app)),
                      CanvasDrawStr 12 20
                        (name (cmds ! (category_positions cmds (current_category app) ! 4))),
                      CanvasDrawStr 12 30
                        (name (cmds ! (category_positions cmds (current_category app) ! 5))),
                      CanvasDrawStr 12 40
                        (name (cmds ! (category_positions cmds (current_category app) ! 6))),
                      CanvasDrawStr 4 50 (Some ''>''),
                      CanvasDrawStr 12 50
                        (name (cmds ! (category_positions cmds (current_category app) ! 7))),
                      CanvasSetFont FontSecondary,
                      CanvasDrawStrAligned 64 62 AlignCenter AlignBottom
                        (Some ''OK=Send  Back=Menu'')])"
proof (intro conjI impI)
  show "unat (visible_start_of (selected_item app) 4) =
      (if unat (selected_item app) < 4 then 0 else unat (selected_item app) - 3)"
    by (rule unat_visible_start)
  show "render_submenu cmds app =
      Some ([CanvasClear, CanvasSetFont FontPrimary,
             CanvasDrawStr 2 10 (headers (current_category app))] @
            rows_from cmds app 20
              [unat (visible_start_of (selected_item app) 4) ..<
               min (unat (visible_start_of (selected_item app) 4) + 4)
                   (length (category_positions cmds (current_category app)))] @
            [CanvasSetFont FontSecondary,
             CanvasDrawStrAligned 64 62 AlignCenter AlignBottom
               (Some ''OK=Send  Back=Menu'')])"
    by (rule render_submenu_wf [OF assms])
next
  assume a: "count_menu_items cmds (current_category app) = Some 10 \<and> selected_item app = 7"
  then show "visible_start_of (selected_item app) 4 = 4"
    by (simp add: visible_start_of_def)
  let ?L = "length (category_positions cmds (current_category app))"
  from a have "(of_nat ?L :: 8 word) = 10"
    by (simp add: count_menu_items_wf [OF assms])
  then have "unat (of_nat ?L :: 8 word) = 10"
    by simp
  then have L: "?L = 10"
    by (simp only: unat_count_wf [OF assms])
  have vs: "unat (visible_start_of 7 4) = 4"
    by (simp add: unat_visible_start)
  have upt: "[4..<8] = [4, 5, 6, 7::nat]"
    by (simp add: upt_rec)
  show "render_submenu cmds app =
      Some [CanvasClear, CanvasSetFont FontPrimary,
            CanvasDrawStr 2 10 (headers (current_category app)),
            CanvasDrawStr 12 20
              (name (cmds ! (category_positions cmds (current_category app) ! 4))),
            CanvasDrawStr 12 30
              (name (cmds ! (category_positions cmds (current_category app) ! 5))),
            CanvasDrawStr 12 40
              (name (cmds ! (category_positions cmds (current_category app) ! 6))),
            CanvasDrawStr 4 50 (Some ''>''),
            CanvasDrawStr 12 50
              (name (cmds ! (category_positions cmds (current_category app) ! 7))),
            CanvasSetFont FontSecondary,
            CanvasDrawStrAligned 64 62 AlignCenter AlignBottom
              (Some ''OK=Send  Back=Menu'')]"
    using a by (simp add: render_submenu_wf [OF assms] vs L upt row_calls_def)
qed

lemma wf_sample_catalog: "wf_catalog sample_catalog"
  by (simp add: wf_catalog_def entries_def sample_catalog_def)

lemma positions_sample:
  "category_positions sample_catalog MenuCategoryContent = [0, 1, 2, 3, 4, 5, 6, 7, 8, 9]"
proof -
  have "length (entries sample_catalog) = 10"
    by (simp add: entries_def sample_catalog_def)
  then show ?thesis
    by (simp add: category_positions_def upt_rec) (simp add: sample_catalog_def)
qed

text \<open>A table of ten Content entries, cursor at 7: rows e, f, g and h, the last marked.\<close>

theorem submenu_viewport_witness:
  "wf_catalog sample_catalog
   \<and> count_menu_items sample_catalog MenuCategoryContent = Some 10
   \<and> render_submenu sample_catalog (at_screen AppStateContentMenu 7 MenuCategoryContent NULL) =
       Some [CanvasClear, CanvasSetFont FontPrimary,
             CanvasDrawStr 2 10 (Some ''CONTENT GEN''),
             CanvasDrawStr 12 20 (Some ''e''),
             CanvasDrawStr 12 30 (Some ''f''),
             CanvasDrawStr 12 40 (Some ''g''),
             CanvasDrawStr 4 50 (Some ''>''),
             CanvasDrawStr 12 50 (Some ''h''),
             CanvasSetFont FontSecondary,
             CanvasDrawStrAligned 64 62 AlignCenter AlignBottom (Some ''OK=Send  Back=Menu'')]"
proof -
  let ?app = "at_screen AppStateContentMenu 7 MenuCategoryContent NULL"
  have cat: "current_category ?app = MenuCategoryContent" and sel: "selected_item ?app = 7"
    by (simp_all add: at_screen_def)
  have cnt: "count_menu_items sample_catalog MenuCategoryContent = Some 10"
    by (simp add: count_menu_items_wf [OF wf_sample_catalog] positions_sample)
  from submenu_viewport [OF wf_sample_catalog, of ?app, THEN conjunct2, THEN conjunct2, THEN mp]
    cat sel cnt
  have "render_submenu sample_catalog ?app =
      Some [CanvasClear, CanvasSetFont FontPrimary,
            CanvasDrawStr 2 10 (headers MenuCategoryContent),
            CanvasDrawStr 12 20 (name (sample_catalog ! ([0, 1, 2, 3, 4, 5, 6, 7, 8, 9] ! 4))),
            CanvasDrawStr 12 30 (name (sample_catalog ! ([0, 1, 2, 3, 4, 5, 6, 7, 8, 9] ! 5))),
            CanvasDrawStr 12 40 (name (sample_catalog ! ([0, 1, 2, 3, 4, 5, 6, 7, 8, 9] ! 6))),
            CanvasDrawStr 4 50 (Some ''>''),
            CanvasDrawStr 12 50 (name (sample_catalog ! ([0, 1, 2, 3, 4, 5, 6, 7, 8, 9] ! 7))),
            CanvasSetFont FontSecondary,
            CanvasDrawStrAligned 64 62 AlignCenter AlignBottom (Some ''OK=Send  Back=Menu'')]"
    by (simp add: positions_sample)
  then have "render_submenu sample_catalog ?app =
      Some [CanvasClear, CanvasSetFont FontPrimary,
            CanvasDrawStr 2 10 (Some ''CONTENT GEN''),
            CanvasDrawStr 12 20 (Some ''e''),
            CanvasDrawStr 12 30 (Some ''f''),
            CanvasDrawStr 12 40 (Some ''g''),
            CanvasDrawStr 4 50 (Some ''>''),
            CanvasDrawStr 12 50 (Some ''h''),
            CanvasSetFont FontSecondary,
            CanvasDrawStrAligned 64 62 AlignCenter AlignBottom (Some ''OK=Send  Back=Menu'')]"
    by (simp add: sample_catalog_def)
  with wf_sample_catalog cnt show ?thesis
    by simp
qed

end
